theory Spec2Isabelle
  imports Main "HOL-Library.Product_Lexorder" "HOL-Library.Sublist"
begin

section \<open>Dates and times of the Python standard library\<close>

text \<open>
  The program uses \<^verbatim>\<open>datetime\<close>, \<^verbatim>\<open>date\<close> and \<^verbatim>\<open>timedelta\<close>. A date is
  modelled by its proleptic Gregorian ordinal (\<^verbatim>\<open>date.toordinal()\<close>): day 1 is
  0001-01-01, a Monday, and the last date, 9999-12-31, is day 3652059. A naive datetime
  is a date and the microsecond within the day. Date arithmetic that leaves the range of
  the type raises \<^verbatim>\<open>OverflowError\<close> in Python; the model returns it as a value.
  The exceptions are named by their Python classes; \<open>OtherException\<close> stands for every
  class that none of the functions below raises itself (the errors of the database and of
  JSON in the body of a command).
\<close>

datatype error = ValueError | OverflowError | IndexError | TypeError | SystemExit
  | OtherException

datatype datetime = Datetime (date: int) (time_of_day: int)

definition MAXORDINAL :: int where
  "MAXORDINAL = 3652059"

definition valid_date :: "int \<Rightarrow> bool" where
  "valid_date d = (1 \<le> d \<and> d \<le> MAXORDINAL)"

text \<open>\<^verbatim>\<open>timedelta(days=n)\<close>: the magnitude of the day count is limited.\<close>

definition timedelta :: "int \<Rightarrow> error + int" where
  "timedelta n = (if \<bar>n\<bar> > 999999999 then Inl OverflowError else Inr n)"

text \<open>\<^verbatim>\<open>d + timedelta(days=n)\<close> and \<^verbatim>\<open>d - timedelta(days=n)\<close> on dates.\<close>

definition date_add :: "int \<Rightarrow> int \<Rightarrow> error + int" where
  "date_add d n =
     (case timedelta n of
        Inl e \<Rightarrow> Inl e
      | Inr td \<Rightarrow> if valid_date (d + td) then Inr (d + td) else Inl OverflowError)"

definition date_sub :: "int \<Rightarrow> int \<Rightarrow> error + int" where
  "date_sub d n =
     (case timedelta n of
        Inl e \<Rightarrow> Inl e
      | Inr td \<Rightarrow> if valid_date (d - td) then Inr (d - td) else Inl OverflowError)"

text \<open>\<^verbatim>\<open>date.weekday()\<close>: Monday is 0, Sunday is 6.\<close>

definition weekday :: "int \<Rightarrow> int" where
  "weekday d = (d + 6) mod 7"

text \<open>\<^verbatim>\<open>datetime.combine(d, datetime.min.time())\<close>: midnight of the day.\<close>

definition combine_min :: "int \<Rightarrow> datetime" where
  "combine_min d = Datetime d 0"

text \<open>\<^verbatim>\<open>sorted\<close> on datetimes: a stable sort by date, then time of day.\<close>

definition sorted_datetimes :: "datetime list \<Rightarrow> datetime list" where
  "sorted_datetimes cs = sort_key (\<lambda>c. (date c, time_of_day c)) cs"

text \<open>\<^verbatim>\<open>xs[-1]\<close> and \<^verbatim>\<open>xs[0]\<close>: the list index raises on an empty list.\<close>

definition index_last :: "'a list \<Rightarrow> error + 'a" where
  "index_last xs = (case xs of [] \<Rightarrow> Inl IndexError | _ \<Rightarrow> Inr (last xs))"

definition index_first :: "'a list \<Rightarrow> error + 'a" where
  "index_first xs = (case xs of [] \<Rightarrow> Inl IndexError | x # _ \<Rightarrow> Inr x)"

text \<open>A list comprehension whose body may raise: the first error ends it.\<close>

fun map_raising :: "('a \<Rightarrow> error + 'b) \<Rightarrow> 'a list \<Rightarrow> error + 'b list" where
  "map_raising f [] = Inr []"
| "map_raising f (x # xs) =
     (case f x of
        Inl e \<Rightarrow> Inl e
      | Inr y \<Rightarrow> (case map_raising f xs of Inl e \<Rightarrow> Inl e | Inr ys \<Rightarrow> Inr (y # ys)))"

text \<open>\<^verbatim>\<open>range(n)\<close> for a Python int: empty when \<open>n \<le> 0\<close>.\<close>

definition range :: "int \<Rightarrow> int list" where
  "range n = map int [0..<nat n]"


section \<open>The Habit class\<close>

record habit =
  habit_id :: string
  name :: string
  description :: string
  periodicity :: string
  created_at :: datetime
  completions :: "datetime list"

text \<open>
  \<^verbatim>\<open>Habit.__init__\<close>. The two values the constructor takes from its surroundings
  when an argument is missing are parameters here: \<open>uuid\<close> is the string of
  \<^verbatim>\<open>uuid.uuid4()\<close> and \<open>clock\<close> the reading of \<^verbatim>\<open>datetime.now()\<close>. An empty id
  string and an empty completion list are falsy, like \<^verbatim>\<open>None\<close>.
\<close>

definition Habit_init ::
  "string \<Rightarrow> datetime \<Rightarrow> string \<Rightarrow> string \<Rightarrow> string \<Rightarrow> string option \<Rightarrow>
   datetime option \<Rightarrow> datetime list option \<Rightarrow> error + habit" where
  "Habit_init uuid clock nm descr per ident created comps =
     (let i = (case ident of None \<Rightarrow> uuid | Some s \<Rightarrow> if s = [] then uuid else s) in
      if per \<notin> set [''daily'', ''weekly''] then Inl ValueError
      else Inr \<lparr> habit_id = i, name = nm, description = descr, periodicity = per,
                 created_at = (case created of None \<Rightarrow> clock | Some t \<Rightarrow> t),
                 completions = (case comps of None \<Rightarrow> [] | Some cs \<Rightarrow> cs) \<rparr>)"

text \<open>
  \<^verbatim>\<open>Habit.complete_task\<close>: the reading \<open>now\<close> of the clock is appended to the
  completions.
\<close>

definition complete_task :: "datetime \<Rightarrow> habit \<Rightarrow> habit" where
  "complete_task now h = h\<lparr>completions := completions h @ [now]\<rparr>"

text \<open>\<^verbatim>\<open>Habit.is_task_completed_for_period\<close>.\<close>

definition is_task_completed_for_period :: "habit \<Rightarrow> datetime \<Rightarrow> error + bool" where
  "is_task_completed_for_period h target_date =
     (if periodicity h = ''daily'' then
        Inr (list_ex (\<lambda>c. date c = date target_date) (completions h))
      else
        (case date_sub (date target_date) (weekday (date target_date)) of
           Inl e \<Rightarrow> Inl e
         | Inr start_of_week \<Rightarrow>
             (case date_add start_of_week 6 of
                Inl e \<Rightarrow> Inl e
              | Inr end_of_week \<Rightarrow>
                  Inr (list_ex (\<lambda>c. start_of_week \<le> date c \<and> date c \<le> end_of_week)
                         (completions h)))))"

text \<open>
  The two \<^verbatim>\<open>while\<close> loops of \<^verbatim>\<open>Habit.get_current_streak\<close>: the daily one steps
  back one day, the weekly one seven days; both stop at the first period that is not
  completed or below the date of creation.
\<close>

function daily_walk :: "habit \<Rightarrow> int \<Rightarrow> nat \<Rightarrow> error + nat" where
  "daily_walk h check_date streak =
     (if check_date \<ge> date (created_at h) then
        (case is_task_completed_for_period h (combine_min check_date) of
           Inl e \<Rightarrow> Inl e
         | Inr done \<Rightarrow>
             if done then
               (case date_sub check_date 1 of
                  Inl e \<Rightarrow> Inl e
                | Inr prev \<Rightarrow> daily_walk h prev (streak + 1))
             else Inr streak)
      else Inr streak)"
  by pat_completeness auto
termination
  by (relation "measure (\<lambda>(h, check_date, streak). nat (check_date - date (created_at h) + 1))")
     (auto simp: date_sub_def timedelta_def split: if_splits)

function weekly_walk :: "habit \<Rightarrow> int \<Rightarrow> nat \<Rightarrow> error + nat" where
  "weekly_walk h check_date streak =
     (if check_date \<ge> date (created_at h) then
        (case is_task_completed_for_period h (combine_min check_date) of
           Inl e \<Rightarrow> Inl e
         | Inr done \<Rightarrow>
             if done then
               (case date_sub check_date 7 of
                  Inl e \<Rightarrow> Inl e
                | Inr prev \<Rightarrow> weekly_walk h prev (streak + 1))
             else Inr streak)
      else Inr streak)"
  by pat_completeness auto
termination
  by (relation "measure (\<lambda>(h, check_date, streak). nat (check_date - date (created_at h) + 1))")
     (auto simp: date_sub_def timedelta_def split: if_splits)

declare daily_walk.simps [simp del] weekly_walk.simps [simp del]

text \<open>
  \<^verbatim>\<open>Habit.get_current_streak\<close>. The method reads the clock itself; \<open>now\<close> is the
  value \<^verbatim>\<open>datetime.now()\<close> returns in this call.
\<close>

definition get_current_streak :: "datetime \<Rightarrow> habit \<Rightarrow> error + nat" where
  "get_current_streak now h =
     (if completions h = [] then Inr 0
      else
        (case index_last (sorted_datetimes (completions h)) of
           Inl e \<Rightarrow> Inl e
         | Inr latest \<Rightarrow>
             (let latest_completion = date latest; current_date = date now in
              if periodicity h = ''daily'' then
                (if latest_completion < current_date then Inr 0
                 else daily_walk h current_date 0)
              else
                (case date_sub current_date (weekday current_date) of
                   Inl e \<Rightarrow> Inl e
                 | Inr current_week_start \<Rightarrow>
                     if latest_completion < current_week_start then Inr 0
                     else weekly_walk h current_week_start 0))))"

text \<open>
  \<^verbatim>\<open>Habit.get_longest_streak\<close>: the list \<^verbatim>\<open>all_periods\<close>, the completion status
  of each period, and the scan of the statuses with the two counters.
\<close>

definition all_periods :: "datetime \<Rightarrow> habit \<Rightarrow> error + int list" where
  "all_periods now h =
     (let current_date = date now; created_date = date (created_at h) in
      if periodicity h = ''daily'' then
        (let days_count = (current_date - created_date) + 1 in
         map_raising (\<lambda>i. date_add created_date i) (range days_count))
      else
        (case date_sub created_date (weekday created_date) of
           Inl e \<Rightarrow> Inl e
         | Inr first_week_start \<Rightarrow>
             (case date_sub current_date (weekday current_date) of
                Inl e \<Rightarrow> Inl e
              | Inr current_week_start \<Rightarrow>
                  (let weeks_count = ((current_week_start - first_week_start) div 7) + 1 in
                   map_raising (\<lambda>i. date_add first_week_start (i * 7)) (range weeks_count)))))"

definition scan_step :: "nat \<times> nat \<Rightarrow> bool \<Rightarrow> nat \<times> nat" where
  "scan_step acc status =
     (case acc of (longest_streak, current_streak) \<Rightarrow>
        if status then (max longest_streak (current_streak + 1), current_streak + 1)
        else (longest_streak, 0))"

definition get_longest_streak :: "datetime \<Rightarrow> habit \<Rightarrow> error + nat" where
  "get_longest_streak now h =
     (if completions h = [] then Inr 0
      else
        (case all_periods now h of
           Inl e \<Rightarrow> Inl e
         | Inr periods \<Rightarrow>
             (case map_raising (\<lambda>period. is_task_completed_for_period h (combine_min period))
                     periods of
                Inl e \<Rightarrow> Inl e
              | Inr completion_status \<Rightarrow> Inr (fst (foldl scan_step (0, 0) completion_status)))))"


section \<open>The name list of the module\<close>

text \<open>
  The module defines a command of its command line with \<^verbatim>\<open>def list()\<close> under
  \<^verbatim>\<open>@cli.command()\<close>. From then on the global name \<^verbatim>\<open>list\<close> of the module is that
  click command and no longer the builtin type, also in the functions written above it,
  which look the name up when they run. Calling a click command with one positional
  argument is \<^verbatim>\<open>Command.main(args)\<close>: the argument is consumed into the argument vector
  (an exception raised while it is consumed ends the call); a vector that is not empty holds
  \<^verbatim>\<open>Habit\<close> objects where the option parser expects strings, and the parser raises
  \<^verbatim>\<open>TypeError\<close>; with an empty vector the body of the command runs (it opens the database,
  reads the clock and prints the stored habits) and \<^verbatim>\<open>main\<close> ends with
  \<^verbatim>\<open>sys.exit\<close>. The parameter \<open>listing\<close> is what the body does: \<open>Inl e\<close> when it raises
  \<open>e\<close>, \<open>Inr ()\<close> when it runs to its end. No call hands a list back to its caller.
\<close>

definition list_command :: "error + unit \<Rightarrow> error + habit list \<Rightarrow> error + habit list" where
  "list_command listing args =
     (case args of
        Inl e \<Rightarrow> Inl e
      | Inr argv \<Rightarrow>
          if argv \<noteq> [] then Inl TypeError
          else (case listing of Inl e \<Rightarrow> Inl e | Inr u \<Rightarrow> Inl SystemExit))"


section \<open>The analytics functions\<close>

text \<open>
  \<^verbatim>\<open>get_longest_streak_for_habit\<close> and \<^verbatim>\<open>get_current_streak_for_habit\<close>. The
  \<^verbatim>\<open>list\<close> they call on the filter is the command.
\<close>

definition get_longest_streak_for_habit ::
  "error + unit \<Rightarrow> datetime \<Rightarrow> string \<Rightarrow> habit list \<Rightarrow> error + nat" where
  "get_longest_streak_for_habit listing now hid habits =
     (case list_command listing (Inr (filter (\<lambda>h. habit_id h = hid) habits)) of
        Inl e \<Rightarrow> Inl e
      | Inr matching_habits \<Rightarrow>
          if matching_habits = [] then Inr 0
          else
            (case index_first matching_habits of
               Inl e \<Rightarrow> Inl e
             | Inr h \<Rightarrow> get_longest_streak now h))"

definition get_current_streak_for_habit ::
  "error + unit \<Rightarrow> datetime \<Rightarrow> string \<Rightarrow> habit list \<Rightarrow> error + nat" where
  "get_current_streak_for_habit listing now hid habits =
     (case list_command listing (Inr (filter (\<lambda>h. habit_id h = hid) habits)) of
        Inl e \<Rightarrow> Inl e
      | Inr matching_habits \<Rightarrow>
          if matching_habits = [] then Inr 0
          else
            (case index_first matching_habits of
               Inl e \<Rightarrow> Inl e
             | Inr h \<Rightarrow> get_current_streak now h))"

text \<open>
  The loops of \<^verbatim>\<open>is_struggling\<close> that fill \<^verbatim>\<open>check_dates\<close>: for each index the
  date is computed (which may raise) and kept when it is not before the date of creation.
\<close>

fun collect_dates :: "(int \<Rightarrow> error + int) \<Rightarrow> int \<Rightarrow> int list \<Rightarrow> error + int list" where
  "collect_dates f created [] = Inr []"
| "collect_dates f created (i # is) =
     (case f i of
        Inl e \<Rightarrow> Inl e
      | Inr check_date \<Rightarrow>
          (case collect_dates f created is of
             Inl e \<Rightarrow> Inl e
           | Inr ds \<Rightarrow> Inr (if check_date \<ge> created then check_date # ds else ds)))"

definition check_dates :: "int \<Rightarrow> int \<Rightarrow> habit \<Rightarrow> error + int list" where
  "check_dates today days h =
     (if periodicity h = ''daily'' then
        collect_dates (\<lambda>i. date_sub today i) (date (created_at h)) (range days)
      else
        (case date_sub today (weekday today) of
           Inl e \<Rightarrow> Inl e
         | Inr current_week_start \<Rightarrow>
             (let weeks_to_check = (days div 7) + 1 in
              collect_dates (\<lambda>i. date_sub current_week_start (i * 7)) (date (created_at h))
                (range weeks_to_check))))"

text \<open>The counting loop: the pair is (completed periods, broken periods).\<close>

fun count_periods :: "habit \<Rightarrow> int list \<Rightarrow> nat \<times> nat \<Rightarrow> error + nat \<times> nat" where
  "count_periods h [] acc = Inr acc"
| "count_periods h (d # ds) (completed_periods, broken_periods) =
     (case is_task_completed_for_period h (combine_min d) of
        Inl e \<Rightarrow> Inl e
      | Inr done \<Rightarrow>
          if done then count_periods h ds (completed_periods + 1, broken_periods)
          else count_periods h ds (completed_periods, broken_periods + 1))"

text \<open>
  The inner function \<^verbatim>\<open>is_struggling\<close> of \<^verbatim>\<open>get_struggling_habits\<close>; the variables
  \<^verbatim>\<open>today\<close> and \<^verbatim>\<open>days\<close> of the enclosing function are its first two arguments.
\<close>

definition is_struggling :: "int \<Rightarrow> int \<Rightarrow> habit \<Rightarrow> error + bool" where
  "is_struggling today days h =
     (case check_dates today days h of
        Inl e \<Rightarrow> Inl e
      | Inr ds \<Rightarrow>
          (case count_periods h ds (0, 0) of
             Inl e \<Rightarrow> Inl e
           | Inr (completed_periods, broken_periods) \<Rightarrow>
               Inr (broken_periods > completed_periods
                    \<and> (broken_periods + completed_periods) > 0)))"

text \<open>\<^verbatim>\<open>filter\<close> with a predicate that may raise.\<close>

fun filter_raising :: "('a \<Rightarrow> error + bool) \<Rightarrow> 'a list \<Rightarrow> error + 'a list" where
  "filter_raising p [] = Inr []"
| "filter_raising p (x # xs) =
     (case p x of
        Inl e \<Rightarrow> Inl e
      | Inr b \<Rightarrow>
          (case filter_raising p xs of
             Inl e \<Rightarrow> Inl e
           | Inr ys \<Rightarrow> Inr (if b then x # ys else ys)))"

text \<open>
  \<^verbatim>\<open>get_struggling_habits\<close>. It reads the clock (\<open>now\<close>) and computes
  \<^verbatim>\<open>start_date\<close> before any habit is looked at; \<^verbatim>\<open>start_date\<close> is not used afterwards.
  The filter is lazy: \<^verbatim>\<open>is_struggling\<close> runs on the habits when the command
  \<^verbatim>\<open>list\<close> consumes its argument.
\<close>

definition get_struggling_habits ::
  "error + unit \<Rightarrow> datetime \<Rightarrow> habit list \<Rightarrow> int \<Rightarrow> error + habit list" where
  "get_struggling_habits listing now habits days =
     (let today = date now in
      case date_sub today days of
        Inl e \<Rightarrow> Inl e
      | Inr start_date \<Rightarrow>
          list_command listing (filter_raising (is_struggling today days) habits))"


section \<open>Periods\<close>

text \<open>
  The program has no function for the anchor of a period: it computes the Monday of a week
  in place, as \<^verbatim>\<open>d - timedelta(days=d.weekday())\<close>. The anchor of the period of a date is
  the date itself for a daily habit and the Monday of its week otherwise (every test of the
  program on the periodicity is \<^verbatim>\<open>== 'daily'\<close> with the weekly case as the other branch).
  A habit is completed for the period of a date when one of its completions has the same
  anchor.
\<close>

definition period_anchor :: "string \<Rightarrow> int \<Rightarrow> int" where
  "period_anchor cadence d = (if cadence = ''daily'' then d else d - weekday d)"

definition is_completed_for_period :: "habit \<Rightarrow> int \<Rightarrow> bool" where
  "is_completed_for_period h d =
     list_ex (\<lambda>c. period_anchor (periodicity h) (date c) = period_anchor (periodicity h) d)
       (completions h)"

text \<open>
  The dates whose whole week lies in the range of \<^verbatim>\<open>date\<close>: day 3652054 is the last
  Sunday of the year 9999.
\<close>

definition week_in_range :: "int \<Rightarrow> bool" where
  "week_in_range d = (1 \<le> d \<and> d \<le> 3652054)"

text \<open>
  The dates a walk of \<^verbatim>\<open>get_current_streak\<close> may look at, newest first: from
  \<open>check\<close> down in steps of \<open>step\<close> days while not before \<open>created\<close>.
\<close>

definition back_dates :: "int \<Rightarrow> int \<Rightarrow> int \<Rightarrow> int list" where
  "back_dates step check created =
     map (\<lambda>i. check - step * int i) [0..<nat ((check - created) div step + 1)]"


text \<open>
  The dates \<^verbatim>\<open>get_longest_streak\<close> enumerates, oldest first: from \<open>first\<close> up in
  steps of \<open>step\<close> days while not after \<open>final\<close>.
\<close>

definition forward_dates :: "int \<Rightarrow> int \<Rightarrow> int \<Rightarrow> int list" where
  "forward_dates step first final =
     map (\<lambda>i. first + step * int i) [0..<nat ((final - first) div step + 1)]"

text \<open>
  All period anchors from one anchor through another, in order, and the completion status
  of every period from the period of creation through the period of the clock reading.
\<close>

definition period_anchors_between :: "string \<Rightarrow> int \<Rightarrow> int \<Rightarrow> int list" where
  "period_anchors_between cadence first final =
     filter (\<lambda>d. period_anchor cadence d = d) [first..final]"

definition period_statuses :: "datetime \<Rightarrow> habit \<Rightarrow> bool list" where
  "period_statuses now h =
     map (is_completed_for_period h)
       (period_anchors_between (periodicity h)
          (period_anchor (periodicity h) (date (created_at h)))
          (period_anchor (periodicity h) (date now)))"

text \<open>
  Runs of completed periods in a list of statuses: the list has a run of length \<open>n\<close>
  when \<open>n\<close> consecutive entries are true; the trailing run is the one that ends the list.
\<close>

definition has_run :: "bool list \<Rightarrow> nat \<Rightarrow> bool" where
  "has_run bs n = sublist (replicate n True) bs"

definition trailing_run :: "bool list \<Rightarrow> nat" where
  "trailing_run bs = length (takeWhile id (rev bs))"




definition window_dates :: "int \<Rightarrow> int \<Rightarrow> habit \<Rightarrow> int list" where
  "window_dates today days h =
     (if periodicity h = ''daily'' then
        filter (\<lambda>d. date (created_at h) \<le> d) (map (\<lambda>i. today - i) (range days))
      else
        filter (\<lambda>d. date (created_at h) \<le> d)
          (map (\<lambda>i. (today - weekday today) - 7 * i) (range (days div 7 + 1))))"


section \<open>Concrete habits and clock readings\<close>

text \<open>
  Day 739387 is Friday 2025-05-16; the Monday of that week is day 739383. The daily habit
  was created ten days before day 739388 and is completed on days 739386 and 739387; the
  weekly habit was created on Wednesday 2025-05-14 and completed on the Thursday.
\<close>

definition daily_habit :: habit where
  "daily_habit =
     \<lparr> habit_id = ''test-habit-1'', name = ''Test Habit'', description = ''A test habit'',
       periodicity = ''daily'', created_at = Datetime 739378 0,
       completions = [Datetime 739386 0, Datetime 739387 0] \<rparr>"

definition weekly_habit :: habit where
  "weekly_habit =
     \<lparr> habit_id = ''test-habit-2'', name = ''Weekly Test'',
       description = ''A weekly test habit'', periodicity = ''weekly'',
       created_at = Datetime 739385 36000000000, completions = [Datetime 739386 0] \<rparr>"


text \<open>
  A weekly habit created on Monday 2025-01-06 and completed in each of the four weeks that
  start on days 739362, 739369, 739376 and 739383.
\<close>

definition old_weekly_habit :: habit where
  "old_weekly_habit =
     \<lparr> habit_id = ''test-habit-3'', name = ''Grocery Shopping'',
       description = ''Buy groceries for the week'', periodicity = ''weekly'',
       created_at = Datetime 739257 0,
       completions = [Datetime 739362 0, Datetime 739369 0, Datetime 739376 0,
                      Datetime 739383 0] \<rparr>"




section \<open>Lookup of a habit by its id\<close>

lemma list_command_raises: "\<exists>e. list_command listing args = Inl e"
  by (cases args; cases listing) (simp_all add: list_command_def)

lemma lookup_never_returns:
  "(\<exists>e. get_longest_streak_for_habit listing now hid habits = Inl e) \<and>
   (\<exists>e. get_current_streak_for_habit listing now hid habits = Inl e)"
proof -
  obtain e where "list_command listing (Inr (filter (\<lambda>h. habit_id h = hid) habits)) = Inl e"
    using list_command_raises by blast
  then show ?thesis
    by (simp add: get_longest_streak_for_habit_def get_current_streak_for_habit_def)
qed

text \<open>
  Claim C10 says that \<^verbatim>\<open>get_longest_streak_for_habit\<close> and
  \<^verbatim>\<open>get_current_streak_for_habit\<close> return 0 when no habit of the list has the id and
  the streak of the first habit that has it otherwise; the docstrings of the two functions
  say the same and the tests of the program expect the streak. On the list of the daily and
  the weekly habit the functions raise \<^verbatim>\<open>TypeError\<close> for the id of the daily habit,
  whatever the clock reads, and for an id that no habit has they run the command
  \<^verbatim>\<open>list\<close> and leave with \<^verbatim>\<open>SystemExit\<close>: the \<^verbatim>\<open>list\<close> they apply to the filter
  is the command of the command line.
\<close>

theorem lookup_by_id_raises:
  "get_longest_streak_for_habit listing now ''test-habit-1'' [daily_habit, weekly_habit]
     = Inl TypeError \<and>
   get_current_streak_for_habit listing now ''test-habit-1'' [daily_habit, weekly_habit]
     = Inl TypeError \<and>
   get_longest_streak_for_habit (Inr ()) now ''nonexistent-id'' [daily_habit, weekly_habit]
     = Inl SystemExit \<and>
   get_current_streak_for_habit (Inr ()) now ''nonexistent-id'' [daily_habit, weekly_habit]
     = Inl SystemExit"
  by (simp add: get_longest_streak_for_habit_def get_current_streak_for_habit_def
        list_command_def daily_habit_def weekly_habit_def)


section \<open>The clock\<close>

lemma get_current_streak_clock:
  "date now1 = date now2 \<Longrightarrow> get_current_streak now1 h = get_current_streak now2 h"
  unfolding get_current_streak_def by (simp cong: sum.case_cong)

lemma get_longest_streak_clock:
  "date now1 = date now2 \<Longrightarrow> get_longest_streak now1 h = get_longest_streak now2 h"
  unfolding get_longest_streak_def all_periods_def by (simp cong: sum.case_cong)

text \<open>
  Claim C3, as stated: the three operations take the time as an argument and read no clock,
  so that the same habit always gives the same result. The methods take the habit only and
  call \<^verbatim>\<open>datetime.now()\<close> themselves: the same habit gives streak 2 when the clock reads
  day 739387 and streak 0 when it reads the next day.
\<close>

theorem same_habit_other_clock_counterexample:
  "get_current_streak (Datetime 739387 0) daily_habit = Inr 2 \<and>
   get_current_streak (Datetime 739388 0) daily_habit = Inr 0 \<and>
   get_current_streak (Datetime 739387 0) daily_habit
   \<noteq> get_current_streak (Datetime 739388 0) daily_habit"
  by code_simp

text \<open>
  Claim C3, amended. \<^verbatim>\<open>get_current_streak\<close> and \<^verbatim>\<open>get_longest_streak\<close> read the
  clock themselves, once, and their result is a function of the habit and of the date of
  that reading: two calls on the same habit whose clock readings fall on the same day
  agree. \<^verbatim>\<open>is_struggling\<close> reads no clock: it classifies a habit from the habit, the
  number of days and the date \<^verbatim>\<open>today\<close> of the reading that \<^verbatim>\<open>get_struggling_habits\<close>
  takes before it classifies, so that two readings on the same day give the same
  classification.
\<close>

theorem result_depends_on_clock_date:
  "date now1 = date now2 \<Longrightarrow>
   get_current_streak now1 h = get_current_streak now2 h \<and>
   get_longest_streak now1 h = get_longest_streak now2 h \<and>
   is_struggling (date now1) days h = is_struggling (date now2) days h"
proof -
  assume d: "date now1 = date now2"
  have s: "is_struggling (date now1) days h = is_struggling (date now2) days h"
    by (simp only: d)
  show ?thesis
    using get_current_streak_clock [OF d, of h] get_longest_streak_clock [OF d, of h] s
    by (intro conjI)
qed

theorem result_depends_on_clock_date_witness:
  "date (Datetime 739387 0) = date (Datetime 739387 61200) \<and>
   get_current_streak (Datetime 739387 0) daily_habit
     = get_current_streak (Datetime 739387 61200) daily_habit \<and>
   get_longest_streak (Datetime 739387 0) daily_habit
     = get_longest_streak (Datetime 739387 61200) daily_habit \<and>
   is_struggling (date (Datetime 739387 0)) 30 daily_habit
     = is_struggling (date (Datetime 739387 61200)) 30 daily_habit"
proof -
  have same_day: "date (Datetime 739387 0) = date (Datetime 739387 61200)"
    by simp
  show ?thesis
    using same_day result_depends_on_clock_date [OF same_day] by (rule conjI)
qed


section \<open>Date arithmetic inside the range\<close>

lemma weekday_bounds: "0 \<le> weekday d \<and> weekday d \<le> 6"
  by (simp add: weekday_def)

lemma week_start_positive: "1 \<le> d \<Longrightarrow> 1 \<le> d - weekday d"
  unfolding weekday_def by presburger

lemma weekday_week_start: "weekday (d - weekday d) = 0"
  unfolding weekday_def by presburger

lemma same_week_iff:
  "(d - weekday d \<le> x \<and> x \<le> d - weekday d + 6) = (x - weekday x = d - weekday d)"
  unfolding weekday_def by presburger

lemma week_end_in_range: "d \<le> 3652054 \<Longrightarrow> d - weekday d + 6 \<le> 3652059"
  unfolding weekday_def by presburger

lemma date_sub_in_range:
  "1 \<le> d - n \<Longrightarrow> d - n \<le> 3652059 \<Longrightarrow> \<bar>n\<bar> \<le> 999999999 \<Longrightarrow> date_sub d n = Inr (d - n)"
  by (simp add: date_sub_def timedelta_def valid_date_def MAXORDINAL_def)

lemma date_add_in_range:
  "1 \<le> d + n \<Longrightarrow> d + n \<le> 3652059 \<Longrightarrow> \<bar>n\<bar> \<le> 999999999 \<Longrightarrow> date_add d n = Inr (d + n)"
  by (simp add: date_add_def timedelta_def valid_date_def MAXORDINAL_def)

lemma date_sub_weekday:
  "1 \<le> d \<Longrightarrow> d \<le> 3652059 \<Longrightarrow> date_sub d (weekday d) = Inr (d - weekday d)"
  using weekday_bounds [of d] week_start_positive [of d]
  by (intro date_sub_in_range) auto

lemma is_task_completed_daily:
  "periodicity h = ''daily'' \<Longrightarrow>
   is_task_completed_for_period h t = Inr (is_completed_for_period h (date t))"
  by (simp add: is_task_completed_for_period_def is_completed_for_period_def period_anchor_def)

lemma is_task_completed_in_range:
  assumes "week_in_range (date t)"
  shows "is_task_completed_for_period h t = Inr (is_completed_for_period h (date t))"
proof (cases "periodicity h = ''daily''")
  case True
  then show ?thesis by (rule is_task_completed_daily)
next
  case False
  let ?s = "date t - weekday (date t)"
  have r: "1 \<le> date t" "date t \<le> 3652054"
    using assms by (auto simp: week_in_range_def)
  have s: "date_sub (date t) (weekday (date t)) = Inr ?s"
    using r by (intro date_sub_weekday) auto
  have "1 \<le> ?s + 6" "?s + 6 \<le> 3652059"
    using r week_end_in_range [of "date t"] week_start_positive [of "date t"] by auto
  then have e: "date_add ?s 6 = Inr (?s + 6)"
    by (intro date_add_in_range) auto
  show ?thesis
    using False
    by (simp add: is_task_completed_for_period_def s e is_completed_for_period_def
          period_anchor_def same_week_iff)
qed


section \<open>The walks of the current streak\<close>

lemma back_dates_below: "check < created \<Longrightarrow> step = 1 \<or> step = 7 \<Longrightarrow> back_dates step check created = []"
proof -
  assume a: "check < created" "step = 1 \<or> step = 7"
  then have "(check - created) div step + 1 \<le> 0" by auto
  then show ?thesis by (simp add: back_dates_def)
qed

lemma back_dates_step:
  assumes "created \<le> check" "step = 1 \<or> step = 7"
  shows "back_dates step check created = check # back_dates step (check - step) created"
proof -
  define k where "k = (check - created) div step"
  have k0: "0 \<le> k" using assms by (auto simp: k_def)
  have prev: "(check - step - created) div step + 1 = k"
    using assms by (auto simp: k_def)
  have n: "nat (k + 1) = Suc (nat k)" using k0 by simp
  have "back_dates step check created = map (\<lambda>i. check - step * int i) [0..<Suc (nat k)]"
    by (simp add: back_dates_def k_def [symmetric] n del: upt_Suc)
  also have "\<dots> = check # map (\<lambda>i. check - step * int i) (map Suc [0..<nat k])"
    by (simp add: upt_conv_Cons map_Suc_upt del: upt_Suc)
  also have "map (\<lambda>i. check - step * int i) (map Suc [0..<nat k])
             = map (\<lambda>i. check - step - step * int i) [0..<nat k]"
    by (simp add: algebra_simps)
  also have "\<dots> = back_dates step (check - step) created"
    by (simp add: back_dates_def prev)
  finally show ?thesis .
qed

lemma daily_walk_value:
  "periodicity h = ''daily'' \<Longrightarrow> 2 \<le> date (created_at h) \<Longrightarrow> check \<le> 3652059 \<Longrightarrow>
   daily_walk h check s
   = Inr (s + length (takeWhile (is_completed_for_period h)
                        (back_dates 1 check (date (created_at h)))))"
proof (induction h check s rule: daily_walk.induct)
  case (1 h check s)
  show ?case
  proof (cases "date (created_at h) \<le> check")
    case False
    then show ?thesis
      by (subst daily_walk.simps) (simp add: back_dates_below)
  next
    case True
    have prev: "date_sub check 1 = Inr (check - 1)"
      using True "1.prems" by (intro date_sub_in_range) auto
    have compl: "is_task_completed_for_period h (combine_min check)
                = Inr (is_completed_for_period h check)"
      using "1.prems"(1) by (simp add: is_task_completed_daily combine_min_def)
    have unfold: "back_dates 1 check (date (created_at h))
                  = check # back_dates 1 (check - 1) (date (created_at h))"
      using True by (simp add: back_dates_step)
    show ?thesis
    proof (cases "is_completed_for_period h check")
      case False
      then show ?thesis
        using True by (subst daily_walk.simps) (simp add: compl unfold)
    next
      case c: True
      have "daily_walk h (check - 1) (s + 1)
            = Inr (s + 1 + length (takeWhile (is_completed_for_period h)
                                     (back_dates 1 (check - 1) (date (created_at h)))))"
        using "1.IH" [OF True compl c prev] "1.prems" by simp
      then show ?thesis
        using True c by (subst daily_walk.simps) (simp add: compl unfold prev)
    qed
  qed
qed

lemma weekly_walk_value:
  "8 \<le> date (created_at h) \<Longrightarrow> check \<le> 3652054 \<Longrightarrow>
   weekly_walk h check s
   = Inr (s + length (takeWhile (is_completed_for_period h)
                        (back_dates 7 check (date (created_at h)))))"
proof (induction h check s rule: weekly_walk.induct)
  case (1 h check s)
  show ?case
  proof (cases "date (created_at h) \<le> check")
    case False
    then show ?thesis
      by (subst weekly_walk.simps) (simp add: back_dates_below)
  next
    case True
    have prev: "date_sub check 7 = Inr (check - 7)"
      using True "1.prems" by (intro date_sub_in_range) auto
    have compl: "is_task_completed_for_period h (combine_min check)
                = Inr (is_completed_for_period h check)"
      using is_task_completed_in_range [of "combine_min check" h] True "1.prems"
      by (simp add: combine_min_def week_in_range_def)
    have unfold: "back_dates 7 check (date (created_at h))
                  = check # back_dates 7 (check - 7) (date (created_at h))"
      using True by (simp add: back_dates_step)
    show ?thesis
    proof (cases "is_completed_for_period h check")
      case False
      then show ?thesis
        using True by (subst weekly_walk.simps) (simp add: compl unfold)
    next
      case c: True
      have "weekly_walk h (check - 7) (s + 1)
            = Inr (s + 1 + length (takeWhile (is_completed_for_period h)
                                     (back_dates 7 (check - 7) (date (created_at h)))))"
        using "1.IH" [OF True compl c prev] "1.prems" by simp
      then show ?thesis
        using True c by (subst weekly_walk.simps) (simp add: compl unfold prev)
    qed
  qed
qed


lemma sorted_le_last: "sorted ys \<Longrightarrow> y \<in> set ys \<Longrightarrow> y \<le> last ys"
  by (induction ys) auto

lemma sort_key_nonempty:
  fixes k :: "'a \<Rightarrow> 'b::linorder"
  shows "xs \<noteq> [] \<Longrightarrow> sort_key k xs \<noteq> []"
proof
  assume ne: "xs \<noteq> []" and e: "sort_key k xs = []"
  have "length (sort_key k xs) = length xs" by (rule length_sort)
  then show False using ne e by simp
qed

lemma last_sort_key_greatest:
  fixes k :: "'a \<Rightarrow> 'b::linorder"
  assumes "x \<in> set xs"
  shows "k x \<le> k (last (sort_key k xs))"
proof -
  let ?ys = "sort_key k xs"
  have ne: "?ys \<noteq> []" using assms by (intro sort_key_nonempty) auto
  have "k x \<in> set (map k ?ys)" using assms by simp
  moreover have "sorted (map k ?ys)" by simp
  ultimately have "k x \<le> last (map k ?ys)"
    by (rule sorted_le_last [rotated])
  then show ?thesis using ne by (simp add: last_map)
qed

lemma last_sort_key_mem:
  fixes k :: "'a \<Rightarrow> 'b::linorder"
  shows "xs \<noteq> [] \<Longrightarrow> last (sort_key k xs) \<in> set xs"
proof -
  assume "xs \<noteq> []"
  then have "last (sort_key k xs) \<in> set (sort_key k xs)"
    by (intro last_in_set sort_key_nonempty)
  then show ?thesis by (simp only: set_sort)
qed

lemma fst_mono_lex: "(a::int, b::int) \<le> (c, d) \<Longrightarrow> a \<le> c"
  by (auto simp: less_eq_prod_def)

lemma index_last_nonempty: "xs \<noteq> [] \<Longrightarrow> index_last xs = Inr (last xs)"
  by (cases xs) (simp_all add: index_last_def)

lemma index_last_sorted_datetimes:
  assumes "cs \<noteq> []"
  shows "index_last (sorted_datetimes cs) = Inr (last (sorted_datetimes cs)) \<and>
         date (last (sorted_datetimes cs)) = Max (date ` set cs)"
proof -
  let ?k = "\<lambda>c. (date c, time_of_day c)"
  let ?l = "last (sort_key ?k cs)"
  have ne: "sort_key ?k cs \<noteq> []" using assms by (rule sort_key_nonempty)
  have mem: "?l \<in> set cs" using assms by (rule last_sort_key_mem)
  have le: "date c \<le> date ?l" if "c \<in> set cs" for c
  proof -
    have "(date c, time_of_day c) \<le> (date ?l, time_of_day ?l)"
      using last_sort_key_greatest [OF that, of ?k] .
    then show ?thesis by (rule fst_mono_lex)
  qed
  have mx: "Max (date ` set cs) = date ?l"
  proof (rule Max_eqI)
    show "finite (date ` set cs)" by simp
    show "date ?l \<in> date ` set cs" using mem by (rule imageI)
    show "y \<le> date ?l" if "y \<in> date ` set cs" for y
      using that le by blast
  qed
  have il: "index_last (sort_key ?k cs) = Inr ?l"
    using ne by (rule index_last_nonempty)
  show ?thesis
    unfolding sorted_datetimes_def using il mx [symmetric] by (rule conjI)
qed

lemma anchor_before_week_start:
  "(l - weekday l < d - weekday d) = (l < d - weekday d)"
  unfolding weekday_def by presburger

text \<open>
  Claim C4. A habit with at least one completion, whose latest completion lies in a period
  strictly before the period of the clock reading, has current streak 0. The date of the
  latest completion is the greatest date among the completions.
\<close>

theorem streak_zero_when_latest_period_before_now:
  "completions h \<noteq> [] \<Longrightarrow> valid_date (date now) \<Longrightarrow>
   period_anchor (periodicity h) (Max (date ` set (completions h)))
     < period_anchor (periodicity h) (date now) \<Longrightarrow>
   get_current_streak now h = Inr 0"
proof -
  assume ne: "completions h \<noteq> []" and v: "valid_date (date now)"
    and before: "period_anchor (periodicity h) (Max (date ` set (completions h)))
                 < period_anchor (periodicity h) (date now)"
  note l = index_last_sorted_datetimes [OF ne]
  have ws: "date_sub (date now) (weekday (date now)) = Inr (date now - weekday (date now))"
    using v by (intro date_sub_weekday) (auto simp: valid_date_def MAXORDINAL_def)
  show ?thesis
  proof (cases "periodicity h = ''daily''")
    case True
    then show ?thesis
      using ne l before by (simp add: get_current_streak_def period_anchor_def)
  next
    case False
    then show ?thesis
      using ne l before
      by (simp add: get_current_streak_def period_anchor_def ws anchor_before_week_start)
  qed
qed


theorem streak_zero_when_latest_period_before_now_witness:
  "completions daily_habit \<noteq> [] \<and> valid_date (date (Datetime 739388 0)) \<and>
   period_anchor (periodicity daily_habit) (Max (date ` set (completions daily_habit)))
     < period_anchor (periodicity daily_habit) (date (Datetime 739388 0)) \<and>
   get_current_streak (Datetime 739388 0) daily_habit = Inr 0"
proof -
  have ne: "completions daily_habit \<noteq> []"
    by (simp add: daily_habit_def)
  have v: "valid_date (date (Datetime 739388 0))"
    by (simp add: valid_date_def MAXORDINAL_def)
  have before:
    "period_anchor (periodicity daily_habit) (Max (date ` set (completions daily_habit)))
     < period_anchor (periodicity daily_habit) (date (Datetime 739388 0))"
    by (simp add: daily_habit_def period_anchor_def)
  show ?thesis
    using ne v before streak_zero_when_latest_period_before_now [OF ne v before] by blast
qed


section \<open>A weekly habit in the week of its creation\<close>

text \<open>
  Claim C1 at a concrete input. The weekly habit was created on Wednesday 2025-05-14 and
  completed on the Thursday; the clock reads the Friday of the same week. The period of the
  clock reading is completed and is the period of creation, yet the walk of
  \<^verbatim>\<open>get_current_streak\<close> compares the Monday of the week with the date of creation,
  does not enter its loop and returns 0, where \<^verbatim>\<open>get_longest_streak\<close> counts the week of
  creation and returns 1.
\<close>

theorem weekly_creation_week_not_counted:
  "get_current_streak (Datetime 739387 0) weekly_habit = Inr 0 \<and>
   is_task_completed_for_period weekly_habit (Datetime 739387 0) = Inr True \<and>
   period_anchor ''weekly'' (date (Datetime 739387 0))
     = period_anchor ''weekly'' (date (created_at weekly_habit)) \<and>
   get_longest_streak (Datetime 739387 0) weekly_habit = Inr 1"
  by code_simp


section \<open>The periods of the longest streak\<close>

lemma map_raising_value:
  "\<forall>x \<in> set xs. f x = Inr (g x) \<Longrightarrow> map_raising f xs = Inr (map g xs)"
  by (induction xs) auto

lemma week_start_le: "d - weekday d \<le> d"
  using weekday_bounds [of d] by simp

lemma week_start_mono: "c \<le> d \<Longrightarrow> c - weekday c \<le> d - weekday d"
  unfolding weekday_def by presburger

lemma all_periods_value:
  assumes "1 \<le> date (created_at h)" "date (created_at h) \<le> 3652059"
    and "1 \<le> date now" "date now \<le> 3652059"
  shows "all_periods now h
         = Inr (forward_dates (if periodicity h = ''daily'' then 1 else 7)
                  (period_anchor (periodicity h) (date (created_at h)))
                  (period_anchor (periodicity h) (date now)))"
proof (cases "periodicity h = ''daily''")
  case True
  have "date_add (date (created_at h)) i = Inr (date (created_at h) + 1 * i)"
    if "i \<in> set (range (date now - date (created_at h) + 1))" for i
  proof -
    have "0 \<le> i" "i < date now - date (created_at h) + 1"
      using that by (auto simp: range_def)
    then show ?thesis using assms by (intro date_add_in_range [THEN trans]) auto
  qed
  then have "map_raising (\<lambda>i. date_add (date (created_at h)) i)
               (range (date now - date (created_at h) + 1))
             = Inr (map (\<lambda>i. date (created_at h) + 1 * i)
                      (range (date now - date (created_at h) + 1)))"
    by (intro map_raising_value) blast
  then show ?thesis
    using True
    by (simp add: all_periods_def period_anchor_def forward_dates_def range_def comp_def Let_def)
next
  case False
  let ?f = "date (created_at h) - weekday (date (created_at h))"
  let ?c = "date now - weekday (date now)"
  have f: "date_sub (date (created_at h)) (weekday (date (created_at h))) = Inr ?f"
    using assms by (intro date_sub_weekday) auto
  have c: "date_sub (date now) (weekday (date now)) = Inr ?c"
    using assms by (intro date_sub_weekday) auto
  have "date_add ?f (i * 7) = Inr (?f + 7 * i)"
    if "i \<in> set (range ((?c - ?f) div 7 + 1))" for i
  proof -
    have "0 \<le> i" "i < (?c - ?f) div 7 + 1"
      using that by (auto simp: range_def)
    then have "0 \<le> i" "7 * i \<le> ?c - ?f" by auto
    then have "1 \<le> ?f + i * 7" "?f + i * 7 \<le> 3652059" "\<bar>i * 7\<bar> \<le> 999999999"
      using week_start_positive [OF assms(1)] week_start_le [of "date now"] assms
        week_start_positive [OF assms(3)] by auto
    then show ?thesis by (intro date_add_in_range [THEN trans]) auto
  qed
  then have "map_raising (\<lambda>i. date_add ?f (i * 7)) (range ((?c - ?f) div 7 + 1))
             = Inr (map (\<lambda>i. ?f + 7 * i) (range ((?c - ?f) div 7 + 1)))"
    by (intro map_raising_value) blast
  then show ?thesis
    using False
    by (simp add: all_periods_def period_anchor_def forward_dates_def range_def comp_def f c Let_def)
qed


section \<open>The scan of the completion statuses\<close>

lemma has_run_mono: "has_run bs m \<Longrightarrow> n \<le> m \<Longrightarrow> has_run bs n"
proof -
  assume r: "has_run bs m" and le: "n \<le> m"
  have split: "replicate m True = replicate n True @ replicate (m - n) True"
    using le by (simp add: replicate_add [symmetric])
  from r obtain ps ss where "bs = ps @ replicate m True @ ss"
    by (auto simp: has_run_def sublist_def)
  then have "bs = ps @ replicate n True @ (replicate (m - n) True @ ss)"
    using split by simp
  then show ?thesis
    unfolding has_run_def sublist_def by blast
qed

lemma has_run_append: "has_run ps n \<Longrightarrow> has_run (ps @ zs) n"
  unfolding has_run_def using sublist_append by blast

lemma takeWhile_id_replicate: "takeWhile id xs = replicate (length (takeWhile id xs)) True"
  by (induction xs) auto

lemma trailing_run_suffix: "suffix (replicate (trailing_run ps) True) ps"
proof -
  have "prefix (takeWhile id (rev ps)) (rev ps)"
    by (rule takeWhile_is_prefix)
  then have "prefix (replicate (trailing_run ps) True) (rev ps)"
    using takeWhile_id_replicate [of "rev ps"] by (simp add: trailing_run_def)
  then show ?thesis by (simp add: suffix_to_prefix)
qed

lemma suffix_run_le_trailing: "suffix (replicate m True) ps \<Longrightarrow> m \<le> trailing_run ps"
proof -
  assume "suffix (replicate m True) ps"
  then have "prefix (replicate m True) (rev ps)" by (simp add: suffix_to_prefix)
  then obtain zs where "rev ps = replicate m True @ zs" by (auto simp: prefix_def)
  then have "takeWhile id (rev ps) = replicate m True @ takeWhile id zs"
    using takeWhile_append2 [of "replicate m True" id zs] by auto
  then show ?thesis by (simp add: trailing_run_def)
qed

lemma trailing_run_snoc:
  "trailing_run (ps @ [b]) = (if b then Suc (trailing_run ps) else 0)"
  by (simp add: trailing_run_def)

lemma has_run_snoc:
  "has_run (ps @ [b]) n = (has_run ps n \<or> n \<le> trailing_run (ps @ [b]))"
proof
  assume "has_run (ps @ [b]) n"
  then have "suffix (replicate n True) (ps @ [b]) \<or> has_run ps n"
    unfolding has_run_def by (simp only: sublist_snoc)
  then show "has_run ps n \<or> n \<le> trailing_run (ps @ [b])"
    using suffix_run_le_trailing [of n "ps @ [b]"] by blast
next
  assume "has_run ps n \<or> n \<le> trailing_run (ps @ [b])"
  then show "has_run (ps @ [b]) n"
  proof
    assume "has_run ps n" then show ?thesis by (rule has_run_append)
  next
    assume le: "n \<le> trailing_run (ps @ [b])"
    have "has_run (ps @ [b]) (trailing_run (ps @ [b]))"
      unfolding has_run_def using trailing_run_suffix by (rule suffix_imp_sublist)
    then show ?thesis using le by (rule has_run_mono)
  qed
qed

lemma scan_invariant:
  "\<exists>l c. foldl scan_step (0, 0) bs = (l, c) \<and> c = trailing_run bs \<and> c \<le> l \<and>
         has_run bs l \<and> \<not> has_run bs (Suc l)"
proof (induction bs rule: rev_induct)
  case Nil
  show ?case by (simp add: trailing_run_def has_run_def)
next
  case (snoc b ps)
  then obtain l c where st: "foldl scan_step (0, 0) ps = (l, c)"
    and c: "c = trailing_run ps" and le: "c \<le> l"
    and run: "has_run ps l" and norun: "\<not> has_run ps (Suc l)"
    by blast
  have nomore: "\<not> has_run ps n" if "l < n" for n
    using norun has_run_mono [of ps n "Suc l"] that by auto
  show ?case
  proof (cases b)
    case False
    have "foldl scan_step (0, 0) (ps @ [b]) = (l, 0)"
      using False by (simp add: st scan_step_def)
    moreover have "trailing_run (ps @ [b]) = 0"
      using False by (simp add: trailing_run_snoc)
    ultimately show ?thesis
      using run norun by (simp add: has_run_snoc)
  next
    case True
    have "foldl scan_step (0, 0) (ps @ [b]) = (max l (Suc c), Suc c)"
      using True by (simp add: st scan_step_def)
    moreover have "trailing_run (ps @ [b]) = Suc c"
      using True c by (simp add: trailing_run_snoc)
    ultimately show ?thesis
      using run nomore [of "Suc (max l (Suc c))"] has_run_mono [OF run, of "max l (Suc c)"]
      by (auto simp: has_run_snoc max_def)
  qed
qed



section \<open>The enumeration of the periods\<close>

lemma forward_dates_mem:
  assumes "step = 1 \<or> step = 7"
  shows "x \<in> set (forward_dates step f l) \<longleftrightarrow> f \<le> x \<and> x \<le> l \<and> (x - f) mod step = 0"
proof
  assume "x \<in> set (forward_dates step f l)"
  then obtain i where i: "i < nat ((l - f) div step + 1)" and x: "x = f + step * int i"
    by (auto simp: forward_dates_def)
  from i have "int i \<le> (l - f) div step" by linarith
  then have "step * int i \<le> l - f"
    using assms by auto
  then show "f \<le> x \<and> x \<le> l \<and> (x - f) mod step = 0"
    using assms x by auto
next
  assume a: "f \<le> x \<and> x \<le> l \<and> (x - f) mod step = 0"
  define i where "i = nat ((x - f) div step)"
  have q: "0 \<le> (x - f) div step" "(x - f) div step \<le> (l - f) div step"
    using a assms by (auto intro: zdiv_mono1)
  have "step * ((x - f) div step) = x - f"
    using a by (metis mult_div_mod_eq add.right_neutral)
  then have "x = f + step * int i"
    using q by (simp add: i_def)
  moreover have "i < nat ((l - f) div step + 1)"
    using q by (simp add: i_def)
  ultimately show "x \<in> set (forward_dates step f l)"
    by (auto simp: forward_dates_def)
qed

lemma forward_dates_strict_sorted:
  assumes "0 < step"
  shows "sorted_wrt (<) (forward_dates step f l)"
proof -
  have "sorted_wrt (\<lambda>x y. f + step * int x < f + step * int y) [0..<n]" for n
    using assms by (intro sorted_wrt_mono_rel [OF _ sorted_wrt_upt]) auto
  then show ?thesis by (simp add: forward_dates_def sorted_wrt_map)
qed

lemma anchor_fixed_iff:
  "weekday f = 0 \<Longrightarrow> (x - weekday x = x) = ((x - f) mod 7 = 0)"
  unfolding weekday_def by presburger

lemma forward_dates_are_anchors:
  "forward_dates (if c = ''daily'' then 1 else 7) (period_anchor c a) (period_anchor c b)
   = period_anchors_between c (period_anchor c a) (period_anchor c b)"
proof -
  let ?step = "if c = ''daily'' then 1 else 7 :: int"
  let ?f = "period_anchor c a" and ?l = "period_anchor c b"
  have step: "?step = 1 \<or> ?step = 7" by simp
  have s1: "sorted_wrt (<) (forward_dates ?step ?f ?l)"
    by (rule forward_dates_strict_sorted) simp
  have s2: "sorted_wrt (<) (period_anchors_between c ?f ?l)"
    unfolding period_anchors_between_def by (rule sorted_wrt_filter) simp
  have "x \<in> set (forward_dates ?step ?f ?l) \<longleftrightarrow> x \<in> set (period_anchors_between c ?f ?l)" for x
  proof (cases "c = ''daily''")
    case True
    then show ?thesis
      using forward_dates_mem [of 1 x ?f ?l]
      by (auto simp: period_anchors_between_def period_anchor_def)
  next
    case False
    have "weekday ?f = 0" using False by (simp add: period_anchor_def weekday_week_start)
    then have "(x - weekday x = x) = ((x - ?f) mod 7 = 0)" by (rule anchor_fixed_iff)
    then show ?thesis
      using False forward_dates_mem [of 7 x ?f ?l]
      by (auto simp: period_anchors_between_def period_anchor_def)
  qed
  then have "set (forward_dates ?step ?f ?l) = set (period_anchors_between c ?f ?l)"
    by blast
  then show ?thesis
    using s1 s2 by (intro sorted_distinct_set_unique) (auto simp: strict_sorted_iff)
qed

lemma rev_forward_dates:
  assumes "step = 1 \<or> step = 7" "(l - f) mod step = 0"
  shows "rev (forward_dates step f l) = back_dates step l f"
proof -
  define n where "n = nat ((l - f) div step + 1)"
  have len: "length (forward_dates step f l) = n" "length (back_dates step l f) = n"
    by (simp_all add: forward_dates_def back_dates_def n_def)
  have total: "step * ((l - f) div step) = l - f"
    using assms(2) by (metis mult_div_mod_eq add.right_neutral)
  have "rev (forward_dates step f l) ! i = back_dates step l f ! i" if "i < n" for i
  proof -
    have pos: "0 \<le> (l - f) div step" and i: "int i \<le> (l - f) div step"
      using that by (auto simp: n_def) 
    have "int (n - Suc i) = (l - f) div step - int i"
      using that pos by (simp add: n_def)
    then have "f + step * int (n - Suc i)
               = f + (step * ((l - f) div step) - step * int i)"
      by (simp add: right_diff_distrib)
    also have "\<dots> = l - step * int i"
      by (simp only: total)
    finally have "f + step * int (n - Suc i) = l - step * int i" .
    then show ?thesis
      using that len by (simp add: rev_nth forward_dates_def back_dates_def n_def)
  qed
  then show ?thesis
    using len by (intro nth_equalityI) auto
qed

lemma back_dates_prefix:
  assumes "step = 1 \<or> step = 7" "a \<le> c"
  shows "prefix (back_dates step b c) (back_dates step b a)"
proof -
  let ?n = "nat ((b - c) div step + 1)" and ?m = "nat ((b - a) div step + 1)"
  have "(b - c) div step \<le> (b - a) div step"
    using assms by (auto intro: zdiv_mono1)
  then have "?n \<le> ?m" by simp
  then have "[0..<?m] = [0..<?n] @ [?n..<?m]"
    by (metis le_add_diff_inverse upt_add_eq_append zero_le)
  then have "back_dates step b a
             = back_dates step b c @ map (\<lambda>i. b - step * int i) [?n..<?m]"
    unfolding back_dates_def by (metis map_append)
  then show ?thesis by (simp add: prefix_def)
qed

lemma takeWhile_prefix_le:
  "prefix xs ys \<Longrightarrow> length (takeWhile P xs) \<le> length (takeWhile P ys)"
proof -
  assume "prefix xs ys"
  then obtain zs where "ys = xs @ zs" by (auto simp: prefix_def)
  then show ?thesis by (induction xs arbitrary: ys) auto
qed



section \<open>The values of the two streaks\<close>

lemma anchor_positive: "1 \<le> d \<Longrightarrow> 1 \<le> period_anchor c d"
  using week_start_positive [of d] by (simp add: period_anchor_def)

lemma anchor_le: "period_anchor c d \<le> d"
  using week_start_le [of d] by (simp add: period_anchor_def)

lemma anchor_difference:
  "(period_anchor c b - period_anchor c a) mod (if c = ''daily'' then 1 else 7) = 0"
  unfolding period_anchor_def weekday_def by (simp, presburger)

lemma get_longest_streak_value:
  assumes "1 \<le> date (created_at h)" "date (created_at h) \<le> 3652059"
    and "week_in_range (date now)"
  shows "get_longest_streak now h
         = Inr (if completions h = [] then 0
                else fst (foldl scan_step (0, 0) (period_statuses now h)))"
proof (cases "completions h = []")
  case True
  then show ?thesis by (simp add: get_longest_streak_def)
next
  case False
  let ?c = "periodicity h"
  let ?f = "period_anchor ?c (date (created_at h))" and ?l = "period_anchor ?c (date now)"
  let ?ps = "period_anchors_between ?c ?f ?l"
  have now: "1 \<le> date now" "date now \<le> 3652054"
    using assms(3) by (auto simp: week_in_range_def)
  have ap: "all_periods now h = Inr ?ps"
    using all_periods_value [of h now] assms(1,2) now
    by (simp add: forward_dates_are_anchors)
  have "is_task_completed_for_period h (combine_min p) = Inr (is_completed_for_period h p)"
    if "p \<in> set ?ps" for p
  proof -
    have "p \<in> set (forward_dates (if ?c = ''daily'' then 1 else 7) ?f ?l)"
      using that by (simp only: forward_dates_are_anchors)
    then have "?f \<le> p" "p \<le> ?l"
      using forward_dates_mem [of "if ?c = ''daily'' then 1 else 7" p ?f ?l] by auto
    then have "week_in_range (date (combine_min p))"
      using anchor_positive [OF assms(1), of ?c] anchor_le [of ?c "date now"] now
      by (simp add: week_in_range_def combine_min_def)
    then show ?thesis
      using is_task_completed_in_range [of "combine_min p" h] by (simp add: combine_min_def)
  qed
  then have "map_raising (\<lambda>period. is_task_completed_for_period h (combine_min period)) ?ps
             = Inr (map (is_completed_for_period h) ?ps)"
    by (intro map_raising_value) blast
  then show ?thesis
    using False by (simp add: get_longest_streak_def ap period_statuses_def)
qed

lemma get_current_streak_value:
  assumes "completions h \<noteq> []" "8 \<le> date (created_at h)" "week_in_range (date now)"
  shows "get_current_streak now h
         = Inr (if period_anchor (periodicity h) (Max (date ` set (completions h)))
                   < period_anchor (periodicity h) (date now) then 0
                else length (takeWhile (is_completed_for_period h)
                        (back_dates (if periodicity h = ''daily'' then 1 else 7)
                           (period_anchor (periodicity h) (date now))
                           (date (created_at h)))))"
proof -
  note l = index_last_sorted_datetimes [OF assms(1)]
  have now: "1 \<le> date now" "date now \<le> 3652054"
    using assms(3) by (auto simp: week_in_range_def)
  have ws: "date_sub (date now) (weekday (date now)) = Inr (date now - weekday (date now))"
    using now by (intro date_sub_weekday) auto
  show ?thesis
  proof (cases "periodicity h = ''daily''")
    case True
    have "daily_walk h (date now) 0
          = Inr (0 + length (takeWhile (is_completed_for_period h)
                               (back_dates 1 (date now) (date (created_at h)))))"
      using True assms(2) now by (intro daily_walk_value) auto
    then show ?thesis
      using True assms(1) l by (simp add: get_current_streak_def period_anchor_def Let_def)
  next
    case False
    have "date now - weekday (date now) \<le> 3652054"
      using week_start_le [of "date now"] now by simp
    then have "weekly_walk h (date now - weekday (date now)) 0
          = Inr (0 + length (takeWhile (is_completed_for_period h)
                               (back_dates 7 (date now - weekday (date now))
                                  (date (created_at h)))))"
      using assms(2) by (intro weekly_walk_value) auto
    then show ?thesis
      using False assms(1) l
      by (simp add: get_current_streak_def period_anchor_def ws anchor_before_week_start
            Let_def)
  qed
qed

lemma trailing_run_statuses:
  "trailing_run (map P xs) = length (takeWhile P (rev xs))"
  by (simp add: trailing_run_def rev_map takeWhile_map comp_def)

lemma walk_le_trailing_run:
  "length (takeWhile (is_completed_for_period h)
             (back_dates (if periodicity h = ''daily'' then 1 else 7)
                (period_anchor (periodicity h) (date now)) (date (created_at h))))
   \<le> trailing_run (period_statuses now h)"
proof -
  let ?c = "periodicity h"
  let ?step = "if ?c = ''daily'' then 1 else 7 :: int"
  let ?f = "period_anchor ?c (date (created_at h))" and ?l = "period_anchor ?c (date now)"
  have step: "?step = 1 \<or> ?step = 7" by simp
  have "rev (forward_dates ?step ?f ?l) = back_dates ?step ?l ?f"
    using step anchor_difference [of ?c "date now" "date (created_at h)"]
    by (rule rev_forward_dates)
  then have "trailing_run (period_statuses now h)
             = length (takeWhile (is_completed_for_period h) (back_dates ?step ?l ?f))"
    by (simp add: period_statuses_def trailing_run_statuses
          forward_dates_are_anchors [symmetric])
  moreover have "prefix (back_dates ?step ?l (date (created_at h))) (back_dates ?step ?l ?f)"
    using step anchor_le [of ?c "date (created_at h)"] by (rule back_dates_prefix)
  ultimately show ?thesis
    using takeWhile_prefix_le by metis
qed

text \<open>
  Claim C7. For every habit and every clock reading inside the range of dates, both streaks
  are computed and the longest streak is not smaller than the current streak.
\<close>

theorem longest_streak_ge_current_streak:
  "8 \<le> date (created_at h) \<Longrightarrow> date (created_at h) \<le> 3652059 \<Longrightarrow>
   week_in_range (date now) \<Longrightarrow>
   \<exists>longest current.
     get_longest_streak now h = Inr longest \<and> get_current_streak now h = Inr current \<and>
     current \<le> longest"
proof -
  assume r: "8 \<le> date (created_at h)" "date (created_at h) \<le> 3652059"
     "week_in_range (date now)"
  show ?thesis
  proof (cases "completions h = []")
    case True
    then show ?thesis by (simp add: get_longest_streak_def get_current_streak_def)
  next
    case False
    obtain l c where st: "foldl scan_step (0, 0) (period_statuses now h) = (l, c)"
      and c: "c = trailing_run (period_statuses now h)" and le: "c \<le> l"
      using scan_invariant [of "period_statuses now h"] by blast
    have lv: "get_longest_streak now h = Inr l"
      using get_longest_streak_value [of h now] r False st by simp
    have "\<exists>n. get_current_streak now h = Inr n \<and> n \<le> c"
      using get_current_streak_value [OF False r(1) r(3)] walk_le_trailing_run [of h now] c
      by auto
    then show ?thesis using lv le by auto
  qed
qed



theorem longest_streak_ge_current_streak_witness:
  "8 \<le> date (created_at daily_habit) \<and> date (created_at daily_habit) \<le> 3652059 \<and>
   week_in_range (date (Datetime 739387 0)) \<and>
   (\<exists>longest current.
      get_longest_streak (Datetime 739387 0) daily_habit = Inr longest \<and>
      get_current_streak (Datetime 739387 0) daily_habit = Inr current \<and>
      current \<le> longest)"
proof -
  have lo: "8 \<le> date (created_at daily_habit)"
    and hi: "date (created_at daily_habit) \<le> 3652059"
    by (simp_all add: daily_habit_def)
  have now: "week_in_range (date (Datetime 739387 0))"
    by (simp add: week_in_range_def)
  show ?thesis
    using lo hi now longest_streak_ge_current_streak [OF lo hi now] by blast
qed

lemma no_completions_no_run:
  assumes "completions h = []"
  shows "has_run (period_statuses now h) 0 \<and> \<not> has_run (period_statuses now h) (Suc 0)"
proof -
  have "is_completed_for_period h d = False" for d
    using assms by (simp add: is_completed_for_period_def)
  then have none: "True \<notin> set (period_statuses now h)"
    by (auto simp: period_statuses_def)
  have "\<not> sublist [True] (period_statuses now h)"
    using none set_mono_sublist [of "[True]" "period_statuses now h"] by auto
  then show ?thesis by (simp add: has_run_def)
qed

text \<open>
  Claim C6. The longest streak is the greatest length of a run of consecutive completed
  periods among all periods from the period of creation through the period of the clock
  reading: the statuses of these periods have a run of that length and none that is longer.
  The enumeration ends at the clock reading whatever the completions are, and a habit with
  no completions has longest streak 0.
\<close>

theorem longest_streak_is_longest_run:
  "1 \<le> date (created_at h) \<Longrightarrow> date (created_at h) \<le> 3652059 \<Longrightarrow>
   week_in_range (date now) \<Longrightarrow>
   \<exists>n. get_longest_streak now h = Inr n \<and>
       has_run (period_statuses now h) n \<and> \<not> has_run (period_statuses now h) (Suc n) \<and>
       (completions h = [] \<longrightarrow> n = 0)"
proof -
  assume r: "1 \<le> date (created_at h)" "date (created_at h) \<le> 3652059"
     "week_in_range (date now)"
  show ?thesis
  proof (cases "completions h = []")
    case True
    then have "get_longest_streak now h = Inr 0" by (simp add: get_longest_streak_def)
    then show ?thesis using no_completions_no_run [OF True, of now] by simp
  next
    case False
    obtain l c where st: "foldl scan_step (0, 0) (period_statuses now h) = (l, c)"
      and run: "has_run (period_statuses now h) l"
      and norun: "\<not> has_run (period_statuses now h) (Suc l)"
      using scan_invariant [of "period_statuses now h"] by blast
    have "get_longest_streak now h = Inr l"
      using get_longest_streak_value [of h now] r False st by simp
    then show ?thesis using run norun False by simp
  qed
qed

theorem longest_streak_is_longest_run_witness:
  "1 \<le> date (created_at daily_habit) \<and> date (created_at daily_habit) \<le> 3652059 \<and>
   week_in_range (date (Datetime 739390 0)) \<and>
   get_longest_streak (Datetime 739390 0) daily_habit = Inr 2 \<and>
   (\<exists>n. get_longest_streak (Datetime 739390 0) daily_habit = Inr n \<and>
        has_run (period_statuses (Datetime 739390 0) daily_habit) n \<and>
        \<not> has_run (period_statuses (Datetime 739390 0) daily_habit) (Suc n) \<and>
        (completions daily_habit = [] \<longrightarrow> n = 0))"
proof -
  have lo: "1 \<le> date (created_at daily_habit)"
    and hi: "date (created_at daily_habit) \<le> 3652059"
    by (simp_all add: daily_habit_def)
  have now: "week_in_range (date (Datetime 739390 0))"
    by (simp add: week_in_range_def)
  have v: "get_longest_streak (Datetime 739390 0) daily_habit = Inr 2"
    by code_simp
  show ?thesis
    using lo hi now v longest_streak_is_longest_run [OF lo hi now] by blast
qed


section \<open>The window of the struggling habits\<close>

lemma collect_dates_value:
  "\<forall>i \<in> set is. f i = Inr (g i) \<Longrightarrow>
   collect_dates f created is = Inr (filter (\<lambda>d. created \<le> d) (map g is))"
  by (induction "is") auto

lemma count_periods_value:
  "\<forall>d \<in> set ds. is_task_completed_for_period h (combine_min d) = Inr (P d) \<Longrightarrow>
   count_periods h ds (c, b)
   = Inr (c + length (filter P ds), b + length (filter (\<lambda>d. \<not> P d) ds))"
  by (induction ds arbitrary: c b) auto

lemma check_dates_value:
  assumes "week_in_range today" "7 \<le> today - days"
  shows "check_dates today days h = Inr (window_dates today days h)"
proof (cases "periodicity h = ''daily''")
  case True
  have "date_sub today i = Inr (today - i)" if "i \<in> set (range days)" for i
  proof -
    have "0 \<le> i" "i < days" using that by (auto simp: range_def)
    then show ?thesis
      using assms by (intro date_sub_in_range) (auto simp: week_in_range_def)
  qed
  then have "collect_dates (\<lambda>i. date_sub today i) (date (created_at h)) (range days)
             = Inr (filter (\<lambda>d. date (created_at h) \<le> d) (map (\<lambda>i. today - i) (range days)))"
    by (intro collect_dates_value) blast
  then show ?thesis using True by (simp add: check_dates_def window_dates_def)
next
  case False
  let ?w = "today - weekday today"
  have t: "1 \<le> today" "today \<le> 3652054" using assms(1) by (auto simp: week_in_range_def)
  have ws: "date_sub today (weekday today) = Inr ?w"
    using t by (intro date_sub_weekday) auto
  have "date_sub ?w (i * 7) = Inr (?w - 7 * i)" if "i \<in> set (range (days div 7 + 1))" for i
  proof -
    have "0 \<le> i" "i \<le> days div 7" using that by (auto simp: range_def)
    then have "0 \<le> i" "7 * i \<le> days" by auto
    then have "1 \<le> ?w - i * 7" "?w - i * 7 \<le> 3652059" "\<bar>i * 7\<bar> \<le> 999999999"
      using weekday_bounds [of today] assms(2) t by auto
    then show ?thesis by (intro date_sub_in_range [THEN trans]) auto
  qed
  then have "collect_dates (\<lambda>i. date_sub ?w (i * 7)) (date (created_at h))
               (range (days div 7 + 1))
             = Inr (filter (\<lambda>d. date (created_at h) \<le> d)
                      (map (\<lambda>i. ?w - 7 * i) (range (days div 7 + 1))))"
    by (intro collect_dates_value) blast
  then show ?thesis using False by (simp add: check_dates_def window_dates_def ws Let_def)
qed

lemma window_dates_in_range:
  assumes "week_in_range today" "7 \<le> today - days" "d \<in> set (window_dates today days h)"
  shows "week_in_range d"
proof -
  have w: "today - 6 \<le> today - weekday today" "today - weekday today \<le> today"
    using weekday_bounds [of today] by auto
  have "(\<exists>i. 0 \<le> i \<and> i < days \<and> d = today - i) \<or>
        (\<exists>i. 0 \<le> i \<and> i \<le> days div 7 \<and> d = today - weekday today - 7 * i)"
    using assms(3) by (auto simp: window_dates_def range_def split: if_splits)
  then show ?thesis
  proof
    assume "\<exists>i. 0 \<le> i \<and> i < days \<and> d = today - i"
    then show ?thesis using assms(1,2) by (auto simp: week_in_range_def)
  next
    assume "\<exists>i. 0 \<le> i \<and> i \<le> days div 7 \<and> d = today - weekday today - 7 * i"
    then obtain i where i: "0 \<le> i" "i \<le> days div 7" "d = today - weekday today - 7 * i"
      by auto
    then have "7 * i \<le> days" by auto
    then show ?thesis using i assms(1,2) w by (auto simp: week_in_range_def)
  qed
qed

lemma is_struggling_value:
  assumes "week_in_range today" "7 \<le> today - days"
  shows "is_struggling today days h
         = Inr (length (filter (\<lambda>d. \<not> is_completed_for_period h d) (window_dates today days h))
                  > length (filter (is_completed_for_period h) (window_dates today days h))
                \<and> window_dates today days h \<noteq> [])"
proof -
  let ?ds = "window_dates today days h"
  have "is_task_completed_for_period h (combine_min d) = Inr (is_completed_for_period h d)"
    if "d \<in> set ?ds" for d
    using is_task_completed_in_range [of "combine_min d" h]
      window_dates_in_range [OF assms that] by (simp add: combine_min_def)
  then have "count_periods h ?ds (0, 0)
        = Inr (0 + length (filter (is_completed_for_period h) ?ds),
               0 + length (filter (\<lambda>d. \<not> is_completed_for_period h d) ?ds))"
    by (intro count_periods_value) blast
  moreover have "(length (filter (\<lambda>d. \<not> is_completed_for_period h d) ?ds)
                  + length (filter (is_completed_for_period h) ?ds) > 0) = (?ds \<noteq> [])"
    using sum_length_filter_compl [of "is_completed_for_period h" ?ds] by auto
  ultimately show ?thesis
    using check_dates_value [OF assms, of h] by (simp add: is_struggling_def)
qed


lemma range_mem: "i \<in> set (range n) \<longleftrightarrow> 0 \<le> i \<and> i < n"
proof
  assume "i \<in> set (range n)" then show "0 \<le> i \<and> i < n" by (auto simp: range_def)
next
  assume a: "0 \<le> i \<and> i < n"
  then have "nat i \<in> set [0..<nat n]" by auto
  then have "int (nat i) \<in> set (range n)" unfolding range_def by (metis imageI set_map)
  then show "i \<in> set (range n)" using a by simp
qed

lemma distinct_range: "distinct (range n)"
  by (simp add: range_def distinct_map)

lemma window_dates_distinct: "distinct (window_dates today days h)"
proof -
  have "distinct (map (\<lambda>i. a - k * i) (range n))" if "k \<noteq> 0" for a k :: int and n
    using that by (auto simp: distinct_map distinct_range inj_on_def)
  from this [of 1 today days] this [of 7 "today - weekday today" "days div 7 + 1"]
  show ?thesis by (simp add: window_dates_def)
qed

lemma window_dates_daily:
  "periodicity h = ''daily'' \<Longrightarrow>
   set (window_dates today days h)
   = {d. today - days < d \<and> d \<le> today \<and> date (created_at h) \<le> d}"
proof -
  assume d: "periodicity h = ''daily''"
  have "(d \<in> set (map (\<lambda>i. today - i) (range days))) = (today - days < d \<and> d \<le> today)" for d
  proof
    assume "d \<in> set (map (\<lambda>i. today - i) (range days))"
    then obtain i where "i \<in> set (range days)" "d = today - i" by auto
    then show "today - days < d \<and> d \<le> today" by (auto simp: range_mem)
  next
    assume "today - days < d \<and> d \<le> today"
    then have "today - d \<in> set (range days)" by (simp add: range_mem)
    then have "today - (today - d) \<in> set (map (\<lambda>i. today - i) (range days))"
      by (metis imageI set_map)
    then show "d \<in> set (map (\<lambda>i. today - i) (range days))" by simp
  qed
  then show ?thesis using d by (auto simp: window_dates_def)
qed

lemma window_dates_weekly:
  "periodicity h \<noteq> ''daily'' \<Longrightarrow>
   (d \<in> set (window_dates today days h))
   = (date (created_at h) \<le> d \<and>
      (\<exists>i. 0 \<le> i \<and> i \<le> days div 7 \<and> d = today - weekday today - 7 * i))"
  by (auto simp: window_dates_def range_mem)

text \<open>
  Claim C2, as stated: the checked anchors are exactly the period anchors in the closed
  interval from \<open>today - days\<close> to \<open>today\<close> on or after the anchor of creation. With a
  window of 3 days the daily habit is checked on three days, and day 739384, which is
  \<open>today - 3\<close> and after the creation, is not among them. With a window of 30 days on a
  Friday a weekly habit is checked for the week that starts on day 739355, two days before
  \<open>today - 30\<close>.
\<close>

theorem window_anchors_counterexample:
  "check_dates 739387 3 daily_habit = Inr [739387, 739386, 739385] \<and>
   739387 - 3 \<le> (739384::int) \<and> (739384::int) \<le> 739387 \<and>
   period_anchor (periodicity daily_habit) 739384 = 739384 \<and>
   period_anchor (periodicity daily_habit) (date (created_at daily_habit)) \<le> 739384 \<and>
   739384 \<notin> set [739387, 739386, 739385::int] \<and>
   check_dates 739387 30 old_weekly_habit = Inr [739383, 739376, 739369, 739362, 739355] \<and>
   (739355::int) < 739387 - 30"
  by code_simp

text \<open>
  Claim C2, amended. For a daily habit the checked dates are exactly the dates
  \<open>today - i\<close> with \<open>0 \<le> i < days\<close> that are not before the date of creation: the
  half-open interval from \<open>today - days\<close> (excluded) to \<open>today\<close> (included), each day once.
  For a weekly habit every checked date is one of the week anchors \<open>anchor today - 7 * i\<close>
  with \<open>0 \<le> i \<le> days div 7\<close> and is not before the anchor of the week of creation, each
  once; every such anchor that is not before the date of creation is checked.
\<close>

theorem window_anchors:
  "week_in_range today \<Longrightarrow> 7 \<le> today - days \<Longrightarrow>
   \<exists>ds. check_dates today days h = Inr ds \<and> distinct ds \<and>
     (periodicity h = ''daily'' \<longrightarrow>
        set ds = {d. today - days < d \<and> d \<le> today \<and> date (created_at h) \<le> d}) \<and>
     (periodicity h \<noteq> ''daily'' \<longrightarrow>
        (\<forall>d \<in> set ds.
           (\<exists>i. 0 \<le> i \<and> i \<le> days div 7 \<and> d = period_anchor (periodicity h) today - 7 * i)
           \<and> period_anchor (periodicity h) (date (created_at h)) \<le> d) \<and>
        (\<forall>i. 0 \<le> i \<and> i \<le> days div 7
              \<and> date (created_at h) \<le> period_anchor (periodicity h) today - 7 * i
           \<longrightarrow> period_anchor (periodicity h) today - 7 * i \<in> set ds))"
proof -
  assume r: "week_in_range today" "7 \<le> today - days"
  let ?ds = "window_dates today days h"
  have daily: "periodicity h = ''daily'' \<longrightarrow>
        set ?ds = {d. today - days < d \<and> d \<le> today \<and> date (created_at h) \<le> d}"
    using window_dates_daily [of h today days] by blast
  have weekly: "periodicity h \<noteq> ''daily'' \<longrightarrow>
        (\<forall>d \<in> set ?ds.
           (\<exists>i. 0 \<le> i \<and> i \<le> days div 7 \<and> d = period_anchor (periodicity h) today - 7 * i)
           \<and> period_anchor (periodicity h) (date (created_at h)) \<le> d) \<and>
        (\<forall>i. 0 \<le> i \<and> i \<le> days div 7
              \<and> date (created_at h) \<le> period_anchor (periodicity h) today - 7 * i
           \<longrightarrow> period_anchor (periodicity h) today - 7 * i \<in> set ?ds)"
  proof
    assume w: "periodicity h \<noteq> ''daily''"
    have a: "period_anchor (periodicity h) today = today - weekday today"
      using w by (simp add: period_anchor_def)
    show "(\<forall>d \<in> set ?ds.
           (\<exists>i. 0 \<le> i \<and> i \<le> days div 7 \<and> d = period_anchor (periodicity h) today - 7 * i)
           \<and> period_anchor (periodicity h) (date (created_at h)) \<le> d) \<and>
        (\<forall>i. 0 \<le> i \<and> i \<le> days div 7
              \<and> date (created_at h) \<le> period_anchor (periodicity h) today - 7 * i
           \<longrightarrow> period_anchor (periodicity h) today - 7 * i \<in> set ?ds)"
      using anchor_le [of "periodicity h" "date (created_at h)"]
      by (auto simp: a window_dates_weekly [OF w])
  qed
  show ?thesis
    using check_dates_value [OF r, of h] window_dates_distinct [of today days h] daily weekly
    by blast
qed

theorem window_anchors_witness:
  "week_in_range 739387 \<and> 7 \<le> (739387::int) - 30 \<and>
   periodicity daily_habit = ''daily'' \<and> periodicity old_weekly_habit \<noteq> ''daily'' \<and>
   (\<exists>ds. check_dates 739387 30 daily_habit = Inr ds \<and> distinct ds \<and>
      set ds = {d. 739387 - 30 < d \<and> d \<le> 739387 \<and> date (created_at daily_habit) \<le> d}) \<and>
   (\<exists>ds. check_dates 739387 30 old_weekly_habit = Inr ds \<and> distinct ds \<and>
      (\<forall>d \<in> set ds.
         (\<exists>i. 0 \<le> i \<and> i \<le> 30 div 7
              \<and> d = period_anchor (periodicity old_weekly_habit) 739387 - 7 * i)
         \<and> period_anchor (periodicity old_weekly_habit) (date (created_at old_weekly_habit))
             \<le> d) \<and>
      (\<forall>i. 0 \<le> i \<and> i \<le> 30 div 7
            \<and> date (created_at old_weekly_habit)
                \<le> period_anchor (periodicity old_weekly_habit) 739387 - 7 * i
         \<longrightarrow> period_anchor (periodicity old_weekly_habit) 739387 - 7 * i \<in> set ds))"
proof -
  have r: "week_in_range 739387"
    by (simp add: week_in_range_def)
  have w: "7 \<le> (739387::int) - 30"
    by simp
  have d: "periodicity daily_habit = ''daily''"
    by (simp add: daily_habit_def)
  have o: "periodicity old_weekly_habit \<noteq> ''daily''"
    by (simp add: old_weekly_habit_def)
  show ?thesis
    using r w d o window_anchors [OF r w, of daily_habit]
      window_anchors [OF r w, of old_weekly_habit]
    by blast
qed


section \<open>The classification of a habit\<close>









section \<open>Construction and failures\<close>

lemma get_struggling_habits_never_returns:
  "\<exists>e. get_struggling_habits listing now habits days = Inl e"
proof (cases "date_sub (date now) days")
  case (Inl e)
  then show ?thesis by (simp add: get_struggling_habits_def)
next
  case (Inr start_date)
  obtain e where
    "list_command listing (filter_raising (is_struggling (date now) days) habits) = Inl e"
    using list_command_raises by blast
  then show ?thesis using Inr by (simp add: get_struggling_habits_def)
qed

text \<open>
  Claim C9, as stated: every operation returns for every habit that was constructed. The
  weekly habit is constructed, yet \<^verbatim>\<open>is_task_completed_for_period\<close> raises
  \<^verbatim>\<open>OverflowError\<close> for the target 9999-12-31, whose week ends after the last date, and
  \<^verbatim>\<open>get_struggling_habits\<close> raises it for a window of 1000000 days, whose start date lies
  before the first date, before it looks at a habit.
\<close>

theorem total_operations_counterexample:
  "Habit_init ''generated-id'' (Datetime 739387 0) ''Weekly Test'' ''A weekly test habit''
     ''weekly'' (Some ''test-habit-2'') (Some (Datetime 739385 36000000000))
     (Some [Datetime 739386 0]) = Inr weekly_habit \<and>
   is_task_completed_for_period weekly_habit (Datetime 3652059 0) = Inl OverflowError \<and>
   get_struggling_habits (Inr ()) (Datetime 739387 0) [weekly_habit] 1000000
     = Inl OverflowError"
proof -
  have a: "Habit_init ''generated-id'' (Datetime 739387 0) ''Weekly Test''
     ''A weekly test habit'' ''weekly'' (Some ''test-habit-2'')
     (Some (Datetime 739385 36000000000)) (Some [Datetime 739386 0]) = Inr weekly_habit"
    by (simp add: Habit_init_def weekly_habit_def)
  have b: "is_task_completed_for_period weekly_habit (Datetime 3652059 0) = Inl OverflowError"
    by code_simp
  have "date_sub 739387 1000000 = Inl OverflowError"
    by (simp add: date_sub_def timedelta_def valid_date_def)
  then have c: "get_struggling_habits (Inr ()) (Datetime 739387 0) [weekly_habit] 1000000
                = Inl OverflowError"
    by (simp add: get_struggling_habits_def)
  show ?thesis using a b c by blast
qed

text \<open>
  Claim C9, amended. The constructor fails with \<^verbatim>\<open>ValueError\<close> for a periodicity other
  than \<^verbatim>\<open>'daily'\<close> and \<^verbatim>\<open>'weekly'\<close> and succeeds for these two. For a constructed
  habit \<^verbatim>\<open>is_task_completed_for_period\<close>, \<^verbatim>\<open>get_current_streak\<close>,
  \<^verbatim>\<open>get_longest_streak\<close> and the classification \<^verbatim>\<open>is_struggling\<close> of the habit
  return a value when the dates stay inside the range of \<^verbatim>\<open>date\<close>: the weeks of the
  target and of the clock reading end by 9999-12-31, the habit was created on or after
  0001-01-08, and the start of the window is between 0001-01-07 and 9999-12-31.
\<close>

theorem habit_construction_and_totality:
  "(per \<notin> {''daily'', ''weekly''} \<longrightarrow>
      Habit_init uuid clock nm descr per ident created comps = Inl ValueError) \<and>
   (per \<in> {''daily'', ''weekly''} \<longrightarrow>
      (\<exists>h. Habit_init uuid clock nm descr per ident created comps = Inr h
           \<and> periodicity h = per)) \<and>
   (Habit_init uuid clock nm descr per ident created comps = Inr h \<and>
    week_in_range (date target) \<and> week_in_range (date now) \<and>
    8 \<le> date (created_at h) \<and> date (created_at h) \<le> 3652059 \<and>
    7 \<le> date now - days \<and> date now - days \<le> 3652059 \<longrightarrow>
      (\<exists>b. is_task_completed_for_period h target = Inr b) \<and>
      (\<exists>n. get_current_streak now h = Inr n) \<and>
      (\<exists>n. get_longest_streak now h = Inr n) \<and>
      (\<exists>b. is_struggling (date now) days h = Inr b))"
proof -
  have "\<exists>n. get_current_streak now h = Inr n"
    if "8 \<le> date (created_at h)" "week_in_range (date now)"
  proof (cases "completions h = []")
    case True then show ?thesis by (simp add: get_current_streak_def)
  next
    case False then show ?thesis
      using get_current_streak_value [OF False that] by blast
  qed
  then show ?thesis
    using is_task_completed_in_range [of target h] get_longest_streak_value [of h now]
      is_struggling_value [of "date now" days h]
    by (auto simp: Habit_init_def Let_def)
qed

theorem habit_construction_and_totality_witness:
  "Habit_init ''generated-id'' (Datetime 739387 0) ''Invalid Habit''
     ''Has invalid periodicity'' ''monthly'' None None None = Inl ValueError \<and>
   (\<exists>h. Habit_init ''generated-id'' (Datetime 739387 0) ''Weekly Test''
          ''A weekly test habit'' ''weekly'' (Some ''test-habit-2'')
          (Some (Datetime 739385 36000000000)) (Some [Datetime 739386 0]) = Inr h
        \<and> periodicity h = ''weekly'') \<and>
   (\<exists>b. is_task_completed_for_period weekly_habit (Datetime 739380 0) = Inr b) \<and>
   (\<exists>n. get_current_streak (Datetime 739387 0) weekly_habit = Inr n) \<and>
   (\<exists>n. get_longest_streak (Datetime 739387 0) weekly_habit = Inr n) \<and>
   (\<exists>b. is_struggling (date (Datetime 739387 0)) 30 weekly_habit = Inr b)"
proof -
  have invalid: "''monthly'' \<notin> {''daily'', ''weekly''}"
    by simp
  have valid: "''weekly'' \<in> {''daily'', ''weekly''}"
    by simp
  have constructed:
    "Habit_init ''generated-id'' (Datetime 739387 0) ''Weekly Test'' ''A weekly test habit''
       ''weekly'' (Some ''test-habit-2'') (Some (Datetime 739385 36000000000))
       (Some [Datetime 739386 0]) = Inr weekly_habit"
    by (simp add: Habit_init_def weekly_habit_def)
  have in_range:
    "week_in_range (date (Datetime 739380 0)) \<and> week_in_range (date (Datetime 739387 0)) \<and>
     8 \<le> date (created_at weekly_habit) \<and> date (created_at weekly_habit) \<le> 3652059 \<and>
     7 \<le> date (Datetime 739387 0) - 30 \<and> date (Datetime 739387 0) - 30 \<le> 3652059"
    by (simp add: week_in_range_def weekly_habit_def)
  note bad = habit_construction_and_totality
        [of "''monthly''" "''generated-id''" "Datetime 739387 0" "''Invalid Habit''"
            "''Has invalid periodicity''" None None None]
  note good = habit_construction_and_totality
        [of "''weekly''" "''generated-id''" "Datetime 739387 0" "''Weekly Test''"
            "''A weekly test habit''" "Some ''test-habit-2''"
            "Some (Datetime 739385 36000000000)" "Some [Datetime 739386 0]"
            weekly_habit "Datetime 739380 0" "Datetime 739387 0" 30]
  note rejected = bad [THEN conjunct1, THEN mp, OF invalid]
  note accepted = good [THEN conjunct2, THEN conjunct1, THEN mp, OF valid]
  note total = good [THEN conjunct2, THEN conjunct2, THEN mp, OF conjI [OF constructed in_range]]
  show ?thesis
    by (rule conjI [OF rejected conjI [OF accepted total]])
qed


section \<open>A second completion in a completed period\<close>

lemma date_sub_result: "date_sub d n = Inr s \<Longrightarrow> s = d - n"
  by (auto simp: date_sub_def timedelta_def split: if_splits)

lemma date_add_result: "date_add d n = Inr s \<Longrightarrow> s = d + n"
  by (auto simp: date_add_def timedelta_def split: if_splits)

lemma duplicate_is_task_completed:
  assumes "c \<in> set (completions h)"
    and "period_anchor (periodicity h) (date c) = period_anchor (periodicity h) (date t)"
  shows "is_task_completed_for_period (complete_task t h) target
         = is_task_completed_for_period h target"
proof (cases "periodicity h = ''daily''")
  case True
  then have "date t = date c" using assms(2) by (simp add: period_anchor_def)
  then show ?thesis
    using True assms(1)
    by (auto simp: is_task_completed_for_period_def complete_task_def list_ex_iff)
next
  case False
  have same: "date c - weekday (date c) = date t - weekday (date t)"
    using False assms(2) by (simp add: period_anchor_def)
  show ?thesis
  proof (cases "date_sub (date target) (weekday (date target))")
    case (Inl e)
    then show ?thesis
      using False by (simp add: is_task_completed_for_period_def complete_task_def)
  next
    case (Inr s)
    then have s: "s = date target - weekday (date target)" by (rule date_sub_result)
    show ?thesis
    proof (cases "date_add s 6")
      case (Inl e)
      then show ?thesis
        using False Inr by (simp add: is_task_completed_for_period_def complete_task_def)
    next
      case en: (Inr e)
      then have e: "e = s + 6" by (rule date_add_result)
      have "(s \<le> date t \<and> date t \<le> e) = (s \<le> date c \<and> date c \<le> e)"
        unfolding e s same_week_iff using same by simp
      then show ?thesis
        using False Inr en assms(1)
        by (auto simp: is_task_completed_for_period_def complete_task_def list_ex_iff)
    qed
  qed
qed


lemma duplicate_daily_walk:
  "c \<in> set (completions h) \<Longrightarrow>
   period_anchor (periodicity h) (date c) = period_anchor (periodicity h) (date t) \<Longrightarrow>
   daily_walk (complete_task t h) check s = daily_walk h check s"
proof (induction h check s rule: daily_walk.induct)
  case (1 h check s)
  note dup = duplicate_is_task_completed [OF "1.prems", of "combine_min check"]
  have created: "created_at (complete_task t h) = created_at h"
    by (simp add: complete_task_def)
  note l = daily_walk.simps [of "complete_task t h" check s]
  note r = daily_walk.simps [of h check s]
  show ?case
  proof (cases "check \<ge> date (created_at h)")
    case False
    then show ?thesis by (simp add: l r created)
  next
    case ge: True
    show ?thesis
    proof (cases "is_task_completed_for_period h (combine_min check)")
      case (Inl e)
      then show ?thesis using ge by (simp add: l r created dup)
    next
      case compl: (Inr b)
      show ?thesis
      proof (cases b)
        case False
        then show ?thesis using ge compl by (simp add: l r created dup)
      next
        case True
        show ?thesis
        proof (cases "date_sub check 1")
          case (Inl e)
          then show ?thesis using ge compl True by (simp add: l r created dup)
        next
          case (Inr prev)
          have "daily_walk (complete_task t h) prev (s + 1) = daily_walk h prev (s + 1)"
            using ge compl True Inr "1.prems" by (rule "1.IH")
          then show ?thesis using ge compl True Inr by (simp add: l r created dup)
        qed
      qed
    qed
  qed
qed

lemma duplicate_weekly_walk:
  "c \<in> set (completions h) \<Longrightarrow>
   period_anchor (periodicity h) (date c) = period_anchor (periodicity h) (date t) \<Longrightarrow>
   weekly_walk (complete_task t h) check s = weekly_walk h check s"
proof (induction h check s rule: weekly_walk.induct)
  case (1 h check s)
  note dup = duplicate_is_task_completed [OF "1.prems", of "combine_min check"]
  have created: "created_at (complete_task t h) = created_at h"
    by (simp add: complete_task_def)
  note l = weekly_walk.simps [of "complete_task t h" check s]
  note r = weekly_walk.simps [of h check s]
  show ?case
  proof (cases "check \<ge> date (created_at h)")
    case False
    then show ?thesis by (simp add: l r created)
  next
    case ge: True
    show ?thesis
    proof (cases "is_task_completed_for_period h (combine_min check)")
      case (Inl e)
      then show ?thesis using ge by (simp add: l r created dup)
    next
      case compl: (Inr b)
      show ?thesis
      proof (cases b)
        case False
        then show ?thesis using ge compl by (simp add: l r created dup)
      next
        case True
        show ?thesis
        proof (cases "date_sub check 7")
          case (Inl e)
          then show ?thesis using ge compl True by (simp add: l r created dup)
        next
          case (Inr prev)
          have "weekly_walk (complete_task t h) prev (s + 1) = weekly_walk h prev (s + 1)"
            using ge compl True Inr "1.prems" by (rule "1.IH")
          then show ?thesis using ge compl True Inr by (simp add: l r created dup)
        qed
      qed
    qed
  qed
qed

lemma duplicate_count_periods:
  "c \<in> set (completions h) \<Longrightarrow>
   period_anchor (periodicity h) (date c) = period_anchor (periodicity h) (date t) \<Longrightarrow>
   count_periods (complete_task t h) ds acc = count_periods h ds acc"
proof (induction ds arbitrary: acc)
  case Nil
  show ?case by simp
next
  case (Cons d ds)
  obtain a b where acc: "acc = (a, b)" by (cases acc)
  show ?case
    unfolding acc using Cons
    by (simp add: duplicate_is_task_completed [OF Cons.prems] split: sum.splits)
qed



lemma week_start_max:
  "max a b - weekday (max a b) = max (a - weekday a) (b - weekday b)"
  using week_start_mono [of a b] week_start_mono [of b a] by (auto simp: max_def)

lemma duplicate_latest:
  assumes "c \<in> set (completions h)"
    and "period_anchor (periodicity h) (date c) = period_anchor (periodicity h) (date t)"
  shows "period_anchor (periodicity h) (Max (date ` set (completions (complete_task t h))))
         = period_anchor (periodicity h) (Max (date ` set (completions h)))"
proof -
  let ?L = "Max (date ` set (completions h))"
  have ne: "date ` set (completions h) \<noteq> {}" using assms(1) by auto
  have cL: "date c \<le> ?L" using assms(1) by simp
  have L': "Max (date ` set (completions (complete_task t h))) = max (date t) ?L"
    using ne by (simp add: complete_task_def)
  show ?thesis
  proof (cases "periodicity h = ''daily''")
    case True
    then have "date t = date c" using assms(2) by (simp add: period_anchor_def)
    then show ?thesis using cL L' by (simp add: max_def)
  next
    case False
    have "date t - weekday (date t) = date c - weekday (date c)"
      using False assms(2) by (simp add: period_anchor_def)
    moreover have "date c - weekday (date c) \<le> ?L - weekday ?L"
      using cL by (rule week_start_mono)
    ultimately show ?thesis
      using False unfolding L' period_anchor_def week_start_max by (simp add: max_def)
  qed
qed

lemma get_current_streak_latest:
  assumes "completions h \<noteq> []"
  shows "get_current_streak now h =
     (if periodicity h = ''daily'' then
        (if Max (date ` set (completions h)) < date now then Inr 0
         else daily_walk h (date now) 0)
      else
        (case date_sub (date now) (weekday (date now)) of
           Inl e \<Rightarrow> Inl e
         | Inr w \<Rightarrow>
             if Max (date ` set (completions h)) < w then Inr 0 else weekly_walk h w 0))"
  using assms index_last_sorted_datetimes [OF assms]
  by (simp add: get_current_streak_def Let_def)


lemma duplicate_current_streak:
  assumes "c \<in> set (completions h)"
    and "period_anchor (periodicity h) (date c) = period_anchor (periodicity h) (date t)"
  shows "get_current_streak now (complete_task t h) = get_current_streak now h"
proof -
  let ?h' = "complete_task t h"
  let ?L = "Max (date ` set (completions h))"
  let ?L' = "Max (date ` set (completions ?h'))"
  have ne: "completions h \<noteq> []" using assms(1) by auto
  have ne': "completions ?h' \<noteq> []" by (simp add: complete_task_def)
  have per: "periodicity ?h' = periodicity h" by (simp add: complete_task_def)
  note lat = duplicate_latest [OF assms]
  note new = get_current_streak_latest [OF ne', of now, unfolded per]
  note old = get_current_streak_latest [OF ne, of now]
  show ?thesis
  proof (cases "periodicity h = ''daily''")
    case True
    have "?L' = ?L" using lat True by (simp add: period_anchor_def)
    then show ?thesis
      unfolding new old using True by (simp add: duplicate_daily_walk [OF assms])
  next
    case False
    show ?thesis
    proof (cases "date_sub (date now) (weekday (date now))")
      case (Inl e)
      then show ?thesis unfolding new old using False by simp
    next
      case (Inr w)
      then have w: "w = date now - weekday (date now)" by (rule date_sub_result)
      have "?L' - weekday ?L' = ?L - weekday ?L"
        using lat False by (simp add: period_anchor_def)
      then have "(?L' < w) = (?L < w)"
        unfolding w using anchor_before_week_start [of ?L' "date now"]
          anchor_before_week_start [of ?L "date now"] by simp
      then show ?thesis
        unfolding new old using False Inr by (simp add: duplicate_weekly_walk [OF assms])
    qed
  qed
qed

lemma duplicate_longest_streak:
  assumes "c \<in> set (completions h)"
    and "period_anchor (periodicity h) (date c) = period_anchor (periodicity h) (date t)"
  shows "get_longest_streak now (complete_task t h) = get_longest_streak now h"
proof -
  have ne: "completions h \<noteq> []" using assms(1) by auto
  have ne': "completions (complete_task t h) \<noteq> []" by (simp add: complete_task_def)
  have ap: "all_periods now (complete_task t h) = all_periods now h"
    by (simp add: all_periods_def complete_task_def)
  show ?thesis
    using ne ne'
    by (simp add: get_longest_streak_def ap duplicate_is_task_completed [OF assms]
          cong: sum.case_cong)
qed

lemma duplicate_is_struggling:
  assumes "c \<in> set (completions h)"
    and "period_anchor (periodicity h) (date c) = period_anchor (periodicity h) (date t)"
  shows "is_struggling today days (complete_task t h) = is_struggling today days h"
proof -
  have created: "created_at (complete_task t h) = created_at h"
    and per: "periodicity (complete_task t h) = periodicity h"
    by (simp_all add: complete_task_def)
  have cd: "check_dates today days (complete_task t h) = check_dates today days h"
    unfolding check_dates_def created per ..
  show ?thesis
    unfolding is_struggling_def cd
    by (simp add: duplicate_count_periods [OF assms] cong: sum.case_cong)
qed


text \<open>
  Claim C8. When a completion \<open>c\<close> of the habit lies in the period of the time \<open>t\<close>,
  \<^verbatim>\<open>complete_task\<close> at the clock reading \<open>t\<close> appends \<open>t\<close> to the completions, and
  the habit with the appended completion has the same current streak, the same longest
  streak and the same classification by \<^verbatim>\<open>is_struggling\<close> as the habit before, for
  every clock reading and every window, a raised error included.
\<close>

theorem duplicate_completion_changes_nothing:
  "c \<in> set (completions h) \<Longrightarrow>
   period_anchor (periodicity h) (date c) = period_anchor (periodicity h) (date t) \<Longrightarrow>
   completions (complete_task t h) = completions h @ [t] \<and>
   get_current_streak now (complete_task t h) = get_current_streak now h \<and>
   get_longest_streak now (complete_task t h) = get_longest_streak now h \<and>
   is_struggling today days (complete_task t h) = is_struggling today days h"
proof -
  assume c: "c \<in> set (completions h)"
    and p: "period_anchor (periodicity h) (date c) = period_anchor (periodicity h) (date t)"
  have appended: "completions (complete_task t h) = completions h @ [t]"
    by (simp add: complete_task_def)
  show ?thesis
    using appended duplicate_current_streak [OF c p, of now]
      duplicate_longest_streak [OF c p, of now] duplicate_is_struggling [OF c p, of today days]
    by (intro conjI)
qed

theorem duplicate_completion_changes_nothing_witness:
  "Datetime 739387 0 \<in> set (completions daily_habit) \<and>
   period_anchor (periodicity daily_habit) (date (Datetime 739387 0))
     = period_anchor (periodicity daily_habit) (date (Datetime 739387 61200000000)) \<and>
   (completions (complete_task (Datetime 739387 61200000000) daily_habit)
      = completions daily_habit @ [Datetime 739387 61200000000] \<and>
    get_current_streak (Datetime 739387 0)
        (complete_task (Datetime 739387 61200000000) daily_habit)
      = get_current_streak (Datetime 739387 0) daily_habit \<and>
    get_longest_streak (Datetime 739387 0)
        (complete_task (Datetime 739387 61200000000) daily_habit)
      = get_longest_streak (Datetime 739387 0) daily_habit \<and>
    is_struggling 739387 10 (complete_task (Datetime 739387 61200000000) daily_habit)
      = is_struggling 739387 10 daily_habit) \<and>
   get_current_streak (Datetime 739387 0) daily_habit = Inr 2 \<and>
   get_longest_streak (Datetime 739387 0) daily_habit = Inr 2 \<and>
   is_struggling 739387 10 daily_habit = Inr True \<and>
   Datetime 739383 0 \<in> set (completions old_weekly_habit) \<and>
   period_anchor (periodicity old_weekly_habit) (date (Datetime 739383 0))
     = period_anchor (periodicity old_weekly_habit) (date (Datetime 739387 0)) \<and>
   (completions (complete_task (Datetime 739387 0) old_weekly_habit)
      = completions old_weekly_habit @ [Datetime 739387 0] \<and>
    get_current_streak (Datetime 739387 0) (complete_task (Datetime 739387 0) old_weekly_habit)
      = get_current_streak (Datetime 739387 0) old_weekly_habit \<and>
    get_longest_streak (Datetime 739387 0) (complete_task (Datetime 739387 0) old_weekly_habit)
      = get_longest_streak (Datetime 739387 0) old_weekly_habit \<and>
    is_struggling 739387 30 (complete_task (Datetime 739387 0) old_weekly_habit)
      = is_struggling 739387 30 old_weekly_habit) \<and>
   get_current_streak (Datetime 739387 0) old_weekly_habit = Inr 4 \<and>
   get_longest_streak (Datetime 739387 0) old_weekly_habit = Inr 4 \<and>
   is_struggling 739387 30 old_weekly_habit = Inr False"
proof -
  have day_mem: "Datetime 739387 0 \<in> set (completions daily_habit)"
    by (simp add: daily_habit_def)
  have day_same: "period_anchor (periodicity daily_habit) (date (Datetime 739387 0))
     = period_anchor (periodicity daily_habit) (date (Datetime 739387 61200000000))"
    by (simp add: period_anchor_def)
  have week_mem: "Datetime 739383 0 \<in> set (completions old_weekly_habit)"
    by (simp add: old_weekly_habit_def)
  have week_same: "period_anchor (periodicity old_weekly_habit) (date (Datetime 739383 0))
     = period_anchor (periodicity old_weekly_habit) (date (Datetime 739387 0))"
    by (simp add: period_anchor_def old_weekly_habit_def weekday_def)
  have d1: "get_current_streak (Datetime 739387 0) daily_habit = Inr 2"
    by code_simp
  have d2: "get_longest_streak (Datetime 739387 0) daily_habit = Inr 2"
    by code_simp
  have d3: "is_struggling 739387 10 daily_habit = Inr True"
    by code_simp
  have w1: "get_current_streak (Datetime 739387 0) old_weekly_habit = Inr 4"
    by code_simp
  have w2: "get_longest_streak (Datetime 739387 0) old_weekly_habit = Inr 4"
    by code_simp
  have w3: "is_struggling 739387 30 old_weekly_habit = Inr False"
    by code_simp
  note daily = duplicate_completion_changes_nothing
                 [OF day_mem day_same, of "Datetime 739387 0" 739387 10]
  note weekly = duplicate_completion_changes_nothing
                  [OF week_mem week_same, of "Datetime 739387 0" 739387 30]
  note week_values = conjI [OF w1 conjI [OF w2 w3]]
  note week_part = conjI [OF week_mem conjI [OF week_same conjI [OF weekly week_values]]]
  show ?thesis
    by (rule conjI [OF day_mem conjI [OF day_same conjI [OF daily
          conjI [OF d1 conjI [OF d2 conjI [OF d3 week_part]]]]]])
qed

end
